theory Spec2Isabelle
  imports Main
begin

section \<open>The k-way merge of range functions (merge.go)\<close>

text \<open>
  The Go package merges push iterators (\<^verbatim>\<open>iter.Seq\<close>). A sequence handed in by the
  caller is modelled by the finite list of the items it yields: \<open>'a list\<close> for a
  sequence of values, \<open>'a list list\<close> for a sequence of batches. A sequence returned
  by the package is a function of the consumer: it takes the \<^verbatim>\<open>yield\<close> callback and
  the consumer's state and gives back the consumer's final state, or the run-time
  panic that ended the run.

  The consumer's callback is a state transformer \<open>'s \<Rightarrow> 'v \<Rightarrow> bool \<times> 's\<close>; the
  boolean is what \<^verbatim>\<open>yield\<close> returns (\<open>False\<close> asks the producer to stop).

  What the engine does to its environment is recorded in a log of events: every
  call of \<^verbatim>\<open>next0\<close>/\<^verbatim>\<open>next1\<close> (with the \<^verbatim>\<open>ok\<close> it returned), every call of the
  comparison function, every batch handed to \<^verbatim>\<open>yield\<close> (with its answer) and every
  deferred \<^verbatim>\<open>stop\<close>. The log is ghost state: no branch of the model reads it. A run
  that ends without a panic returns the log next to the consumer's state.

  A batch handed to \<^verbatim>\<open>yield\<close> is a slice of the engine's buffer, which later writes
  change; the model hands over the values the slice holds at the time of the call.
  Offsets and cursors are bounded by the lengths of the buffer and of the batches, so
  they are natural numbers here.
\<close>

datatype error = IndexOutOfRange | SliceBoundsOutOfRange

datatype 'a event = Pull nat bool | Cmp 'a 'a | Yield "'a list" bool | Stop nat

type_synonym ('v, 's) yield = "'s \<Rightarrow> 'v \<Rightarrow> bool \<times> 's"

type_synonym ('v, 'a, 's) seq = "('v, 's) yield \<Rightarrow> 's \<Rightarrow> error + 's \<times> 'a event list"

text \<open>\<^verbatim>\<open>bufferSize = 128\<close> (lines 9-11).\<close>

definition bufferSize :: nat where
  "bufferSize = 128"

subsection \<open>Slices\<close>

text \<open>
  Go checks every index and every slice bound and panics when it is out of range;
  the three operations below return the panic as a value.
\<close>

definition index :: "'a list \<Rightarrow> nat \<Rightarrow> error + 'a" where
  "index xs i = (if i < length xs then Inr (xs ! i) else Inl IndexOutOfRange)"

definition assign :: "'a list \<Rightarrow> nat \<Rightarrow> 'a \<Rightarrow> error + 'a list" where
  "assign xs i v = (if i < length xs then Inr (xs[i := v]) else Inl IndexOutOfRange)"

definition slice_to :: "'a list \<Rightarrow> nat \<Rightarrow> error + 'a list" where
  "slice_to xs n = (if n \<le> length xs then Inr (take n xs) else Inl SliceBoundsOutOfRange)"

subsection \<open>The output side: buffer, offset, consumer and log\<close>

record ('a, 's) out =
  buffer :: "'a list"
  offset :: nat
  cons :: 's
  trace :: "'a event list"

datatype ('k, 'r) outcome = Next 'k | Return 'r | Panic error

definition logged :: "'a event \<Rightarrow> ('a, 's) out \<Rightarrow> ('a, 's) out" where
  "logged e w = w\<lparr>trace := trace w @ [e]\<rparr>"

text \<open>One call \<^verbatim>\<open>yield(b)\<close>: the consumer's state changes, the call is logged.\<close>

definition emit :: "('a list, 's) yield \<Rightarrow> 'a list \<Rightarrow> ('a, 's) out \<Rightarrow> bool \<times> ('a, 's) out" where
  "emit yield b w = (case yield (cons w) b of (r, c) \<Rightarrow> (r, logged (Yield b r) (w\<lparr>cons := c\<rparr>)))"

text \<open>
  One call of the \<^verbatim>\<open>next\<close> function that \<^verbatim>\<open>iter.Pull\<close> made of source number \<open>k\<close>:
  the next batch and \<open>True\<close>, or the nil slice and \<open>False\<close> once the source has ended.
\<close>

definition pull :: "nat \<Rightarrow> 'a list list \<Rightarrow> ('a, 's) out \<Rightarrow> ('a list \<times> bool) \<times> 'a list list \<times> ('a, 's) out" where
  "pull k src w =
     (case src of
        [] \<Rightarrow> (([], False), [], logged (Pull k False) w)
      | b # bs \<Rightarrow> ((b, True), bs, logged (Pull k True) w))"

subsection \<open>debuffer (lines 58-70)\<close>

text \<open>The callback that \<^verbatim>\<open>debuffer\<close> hands to the sequence of batches.\<close>

fun debuffer_yield :: "('a, 's) yield \<Rightarrow> ('a list, 's) yield" where
  "debuffer_yield yield c [] = (True, c)"
| "debuffer_yield yield c (v # values) =
     (case yield c v of
        (r, c') \<Rightarrow> if \<not> r then (False, c') else debuffer_yield yield c' values)"

definition debuffer :: "('a list, 'a, 's) seq \<Rightarrow> ('a, 'a, 's) seq" where
  "debuffer seq yield c = seq (debuffer_yield yield) c"

subsection \<open>merge2 (lines 72-140)\<close>

text \<open>Lines 94-99: hand the buffer over when fewer than two free places are left.\<close>

definition make_room :: "('a list, 's) yield \<Rightarrow> ('a, 's) out \<Rightarrow> (('a, 's) out, ('a, 's) out) outcome" where
  "make_room yield w =
     (if offset w + 1 \<ge> length (buffer w) then
        (case slice_to (buffer w) (offset w) of
           Inl e \<Rightarrow> Panic e
         | Inr b \<Rightarrow>
             (case emit yield b w of
                (r, w') \<Rightarrow> if \<not> r then Return w' else Next (w'\<lparr>offset := 0\<rparr>)))
      else Next w)"

text \<open>Lines 91-117: the body of the inner loop.\<close>

definition merge2_step ::
  "('a \<Rightarrow> 'a \<Rightarrow> int) \<Rightarrow> ('a list, 's) yield \<Rightarrow> 'a list \<Rightarrow> 'a list \<Rightarrow> nat \<Rightarrow> nat \<Rightarrow> ('a, 's) out
     \<Rightarrow> (nat \<times> nat \<times> ('a, 's) out, ('a, 's) out) outcome" where
  "merge2_step cmp yield values0 values1 i0 i1 w =
     (case index values0 i0 of Inl e \<Rightarrow> Panic e | Inr v0 \<Rightarrow>
      case index values1 i1 of Inl e \<Rightarrow> Panic e | Inr v1 \<Rightarrow>
      case make_room yield w of Panic e \<Rightarrow> Panic e | Return w' \<Rightarrow> Return w' | Next w1 \<Rightarrow>
        let diff = cmp v0 v1; w2 = logged (Cmp v0 v1) w1 in
        if diff < 0 then
          (case assign (buffer w2) (offset w2) v0 of Inl e \<Rightarrow> Panic e | Inr b \<Rightarrow>
             Next (i0 + 1, i1, w2\<lparr>buffer := b, offset := offset w2 + 1\<rparr>))
        else if diff > 0 then
          (case assign (buffer w2) (offset w2) v1 of Inl e \<Rightarrow> Panic e | Inr b \<Rightarrow>
             Next (i0, i1 + 1, w2\<lparr>buffer := b, offset := offset w2 + 1\<rparr>))
        else
          (case assign (buffer w2) (offset w2 + 0) v0 of Inl e \<Rightarrow> Panic e | Inr b \<Rightarrow>
           case assign b (offset w2 + 1) v1 of Inl e \<Rightarrow> Panic e | Inr b' \<Rightarrow>
             Next (i0 + 1, i1 + 1, w2\<lparr>buffer := b', offset := offset w2 + 2\<rparr>)))"

lemma merge2_step_advances:
  "merge2_step cmp yield values0 values1 i0 i1 w = Next (j0, j1, w') \<Longrightarrow>
     i0 < length values0 \<and> i1 < length values1 \<and> i0 \<le> j0 \<and> i1 \<le> j1 \<and> i0 + i1 < j0 + j1
     \<and> j0 \<le> i0 + 1 \<and> j1 \<le> i1 + 1"
  by (auto simp: merge2_step_def index_def Let_def split: sum.splits outcome.splits if_splits)

text \<open>Lines 90-118: the inner loop, from the cursors \<open>i0\<close> and \<open>i1\<close>.\<close>

function merge2_inner ::
  "('a \<Rightarrow> 'a \<Rightarrow> int) \<Rightarrow> ('a list, 's) yield \<Rightarrow> 'a list \<Rightarrow> 'a list \<Rightarrow> nat \<Rightarrow> nat \<Rightarrow> ('a, 's) out
     \<Rightarrow> (nat \<times> nat \<times> ('a, 's) out, ('a, 's) out) outcome" where
  "merge2_inner cmp yield values0 values1 i0 i1 w =
     (if i0 < length values0 \<and> i1 < length values1 then
        (case merge2_step cmp yield values0 values1 i0 i1 w of
           Next (j0, j1, w') \<Rightarrow> merge2_inner cmp yield values0 values1 j0 j1 w'
         | Return w' \<Rightarrow> Return w'
         | Panic e \<Rightarrow> Panic e)
      else Next (i0, i1, w))"
  by pat_completeness auto
termination
proof (relation "measure (\<lambda>(cmp, yield, values0, values1, i0, i1, w).
                   (length values0 - i0) + (length values1 - i1))", goal_cases)
  case 1
  show ?case by simp
next
  case (2 cmp yield values0 values1 i0 i1 w x1 j0 y j1 w')
  from 2(2,3,4) have "merge2_step cmp yield values0 values1 i0 i1 w = Next (j0, j1, w')"
    by simp
  from merge2_step_advances [OF this] show ?case
    by auto
qed

declare merge2_inner.simps [simp del]

subsection \<open>The outer loop of merge2 (lines 86-129)\<close>

record ('a, 's) frame =
  next0 :: "'a list list"
  next1 :: "'a list list"
  values0 :: "'a list"
  ok0 :: bool
  values1 :: "'a list"
  ok1 :: bool
  world :: "('a, 's) out"

text \<open>Lines 120-123 and 125-128: a source whose batch has been read to its end is pulled.\<close>

definition refill0 :: "nat \<Rightarrow> ('a, 's) frame \<Rightarrow> ('a, 's) frame" where
  "refill0 i0 f =
     (if i0 = length (values0 f) then
        (case pull 0 (next0 f) (world f) of
           ((vs, ok), src, w') \<Rightarrow> f\<lparr>next0 := src, values0 := vs, ok0 := ok, world := w'\<rparr>)
      else f)"

definition refill1 :: "nat \<Rightarrow> ('a, 's) frame \<Rightarrow> ('a, 's) frame" where
  "refill1 i1 f =
     (if i1 = length (values1 f) then
        (case pull 1 (next1 f) (world f) of
           ((vs, ok), src, w') \<Rightarrow> f\<lparr>next1 := src, values1 := vs, ok1 := ok, world := w'\<rparr>)
      else f)"

text \<open>
  Lines 87-128: one round of the outer loop. The cursors \<^verbatim>\<open>i0\<close> and \<^verbatim>\<open>i1\<close> are
  declared inside the loop body, so every round starts both at 0.
\<close>

definition merge2_round ::
  "('a \<Rightarrow> 'a \<Rightarrow> int) \<Rightarrow> ('a list, 's) yield \<Rightarrow> ('a, 's) frame
     \<Rightarrow> (('a, 's) frame, ('a, 's) out) outcome" where
  "merge2_round cmp yield f =
     (case merge2_inner cmp yield (values0 f) (values1 f) 0 0 (world f) of
        Panic e \<Rightarrow> Panic e
      | Return w' \<Rightarrow> Return w'
      | Next (i0, i1, w') \<Rightarrow> Next (refill1 i1 (refill0 i0 (f\<lparr>world := w'\<rparr>))))"

text \<open>What is left to pull: the batches not yet produced, and one more call per live source.\<close>

definition pending :: "('a, 's) frame \<Rightarrow> nat" where
  "pending f = length (next0 f) + length (next1 f) + (if ok0 f then 1 else 0) + (if ok1 f then 1 else 0)"

lemma merge2_inner_exit:
  "merge2_inner cmp yield vs0 vs1 i0 i1 w = Next (j0, j1, w') \<Longrightarrow>
     i0 \<le> length vs0 \<Longrightarrow> i1 \<le> length vs1 \<Longrightarrow>
     (j0 = length vs0 \<or> j1 = length vs1) \<and> j0 \<le> length vs0 \<and> j1 \<le> length vs1"
proof (induction cmp yield vs0 vs1 i0 i1 w rule: merge2_inner.induct)
  case (1 cmp yield values0 values1 i0 i1 w)
  show ?case
  proof (cases "i0 < length values0 \<and> i1 < length values1")
    case False
    with "1.prems" show ?thesis
      by (auto simp: merge2_inner.simps [of cmp yield values0 values1 i0 i1 w])
  next
    case True
    with "1.prems"(1) obtain k0 k1 w1 where
      step: "merge2_step cmp yield values0 values1 i0 i1 w = Next (k0, k1, w1)"
      and rest: "merge2_inner cmp yield values0 values1 k0 k1 w1 = Next (j0, j1, w')"
      by (auto simp: merge2_inner.simps [of cmp yield values0 values1 i0 i1 w]
               split: outcome.splits)
    from merge2_step_advances [OF step] have "k0 \<le> length values0" "k1 \<le> length values1"
      by auto
    with "1.IH" [OF True step refl refl rest] show ?thesis
      by simp
  qed
qed

lemma merge2_round_pending:
  assumes "merge2_round cmp yield f = Next f'" and "ok0 f" and "ok1 f"
  shows "pending f' < pending f"
proof -
  from assms(1) obtain i0 i1 w' where
    inner: "merge2_inner cmp yield (values0 f) (values1 f) 0 0 (world f) = Next (i0, i1, w')"
    and f': "f' = refill1 i1 (refill0 i0 (f\<lparr>world := w'\<rparr>))"
    by (auto simp: merge2_round_def split: outcome.splits)
  from merge2_inner_exit [OF inner] have "i0 = length (values0 f) \<or> i1 = length (values1 f)"
    by simp
  with assms(2,3) show ?thesis
    unfolding f' pending_def refill0_def refill1_def pull_def
    by (auto split: list.splits)
qed

function merge2_loop ::
  "('a \<Rightarrow> 'a \<Rightarrow> int) \<Rightarrow> ('a list, 's) yield \<Rightarrow> ('a, 's) frame
     \<Rightarrow> (('a, 's) frame, ('a, 's) out) outcome" where
  "merge2_loop cmp yield f =
     (if ok0 f \<and> ok1 f then
        (case merge2_round cmp yield f of
           Next f' \<Rightarrow> merge2_loop cmp yield f'
         | Return w' \<Rightarrow> Return w'
         | Panic e \<Rightarrow> Panic e)
      else Next f)"
  by pat_completeness auto
termination
proof (relation "measure (\<lambda>(cmp, yield, f). pending f)", goal_cases)
  case 1
  show ?case by simp
next
  case (2 cmp yield f f')
  then show ?case
    using merge2_round_pending [of cmp yield f f'] by simp
qed

declare merge2_loop.simps [simp del]

subsection \<open>flush (lines 142-146)\<close>

function flush ::
  "('a list, 's) yield \<Rightarrow> nat \<Rightarrow> 'a list list \<Rightarrow> 'a list \<Rightarrow> bool \<Rightarrow> ('a, 's) out \<Rightarrow> ('a, 's) out" where
  "flush yield k src values ok w =
     (if ok then
        (case emit yield values w of
           (r, w') \<Rightarrow>
             if r then
               (case pull k src w' of
                  ((values', ok'), src', w'') \<Rightarrow> flush yield k src' values' ok' w'')
             else w')
      else w)"
  by pat_completeness auto
termination
  by (relation "measure (\<lambda>(yield, k, src, values, ok, w). length src + (if ok then 1 else 0))")
     (auto simp: pull_def split: list.splits)

declare flush.simps [simp del]

subsection \<open>merge2 as a whole\<close>

text \<open>Lines 131-138: the last partial batch, then what the two sources still hold.\<close>

definition merge2_tail :: "('a list, 's) yield \<Rightarrow> ('a, 's) frame \<Rightarrow> error + ('a, 's) out" where
  "merge2_tail yield f =
     (if offset (world f) > 0 then
        (case slice_to (buffer (world f)) (offset (world f)) of
           Inl e \<Rightarrow> Inl e
         | Inr b \<Rightarrow>
             (case emit yield b (world f) of
                (r, w') \<Rightarrow>
                  if \<not> r then Inr w'
                  else Inr (flush yield 1 (next1 f) (values1 f) (ok1 f)
                             (flush yield 0 (next0 f) (values0 f) (ok0 f) w'))))
      else Inr (flush yield 1 (next1 f) (values1 f) (ok1 f)
                 (flush yield 0 (next0 f) (values0 f) (ok0 f) (world f))))"

text \<open>
  Lines 75-138. \<open>B\<close> is the length of the buffer (\<^verbatim>\<open>bufferSize\<close> in the source) and
  \<open>z\<close> the zero value of \<^verbatim>\<open>V\<close> that \<^verbatim>\<open>make\<close> fills it with.
\<close>

definition merge2_body ::
  "nat \<Rightarrow> 'a \<Rightarrow> ('a \<Rightarrow> 'a \<Rightarrow> int) \<Rightarrow> 'a list list \<Rightarrow> 'a list list \<Rightarrow> ('a list, 's) yield \<Rightarrow> 's
     \<Rightarrow> error + ('a, 's) out" where
  "merge2_body B z cmp seq0 seq1 yield c =
     (case pull 0 seq0 \<lparr>buffer = [], offset = 0, cons = c, trace = []\<rparr> of
        ((vs0, k0), src0, w0) \<Rightarrow>
     (case pull 1 seq1 w0 of
        ((vs1, k1), src1, w1) \<Rightarrow>
     (case merge2_loop cmp yield
             \<lparr>next0 = src0, next1 = src1, values0 = vs0, ok0 = k0, values1 = vs1, ok1 = k1,
              world = w1\<lparr>buffer := replicate B z, offset := 0\<rparr>\<rparr> of
        Panic e \<Rightarrow> Inl e
      | Return w' \<Rightarrow> Inr w'
      | Next f \<Rightarrow> merge2_tail yield f)))"

text \<open>
  The deferred calls run when the function returns, last deferred first:
  \<^verbatim>\<open>stop1\<close>, then \<^verbatim>\<open>stop0\<close>.
\<close>

definition merge2_with ::
  "nat \<Rightarrow> 'a \<Rightarrow> ('a \<Rightarrow> 'a \<Rightarrow> int) \<Rightarrow> 'a list list \<Rightarrow> 'a list list \<Rightarrow> ('a list, 'a, 's) seq" where
  "merge2_with B z cmp seq0 seq1 yield c =
     (case merge2_body B z cmp seq0 seq1 yield c of
        Inl e \<Rightarrow> Inl e
      | Inr w \<Rightarrow> Inr (cons w, trace w @ [Stop 1, Stop 0]))"

definition merge2 ::
  "'a \<Rightarrow> ('a \<Rightarrow> 'a \<Rightarrow> int) \<Rightarrow> 'a list list \<Rightarrow> 'a list list \<Rightarrow> ('a list, 'a, 's) seq" where
  "merge2 = merge2_with bufferSize"

subsection \<open>merge (lines 148-176)\<close>

text \<open>
  \<^verbatim>\<open>makeTree\<close>, \<^verbatim>\<open>tree.next\<close> and \<^verbatim>\<open>tree.stop\<close> are not part of merge.go. The tree
  is a parameter here: the list of the values that \<^verbatim>\<open>tree.next(cmp)\<close> returns with
  \<^verbatim>\<open>ok = true\<close>, in order, before it returns \<^verbatim>\<open>ok = false\<close>. What the deferred
  \<^verbatim>\<open>tree.stop()\<close> does is not modelled.
\<close>

fun merge_loop ::
  "('a list, 's) yield \<Rightarrow> 'a list \<Rightarrow> ('a, 's) out \<Rightarrow> (('a, 's) out, ('a, 's) out) outcome" where
  "merge_loop yield [] w = Next w"
| "merge_loop yield (v # vs) w =
     (case assign (buffer w) (offset w) v of
        Inl e \<Rightarrow> Panic e
      | Inr b \<Rightarrow>
          (let w1 = w\<lparr>buffer := b, offset := offset w + 1\<rparr> in
           if offset w1 = length (buffer w1) then
             (case emit yield (buffer w1) w1 of
                (r, w') \<Rightarrow> if \<not> r then Return w' else merge_loop yield vs (w'\<lparr>offset := 0\<rparr>))
           else merge_loop yield vs w1))"

definition merge_with ::
  "nat \<Rightarrow> 'a \<Rightarrow> (('a \<Rightarrow> 'a \<Rightarrow> int) \<Rightarrow> 'a list list list \<Rightarrow> 'a list) \<Rightarrow> ('a \<Rightarrow> 'a \<Rightarrow> int)
     \<Rightarrow> 'a list list list \<Rightarrow> ('a list, 'a, 's) seq" where
  "merge_with B z tree cmp seqs yield c =
     (case merge_loop yield (tree cmp seqs)
             \<lparr>buffer = replicate B z, offset = 0, cons = c, trace = []\<rparr> of
        Panic e \<Rightarrow> Inl e
      | Return w \<Rightarrow> Inr (cons w, trace w)
      | Next w \<Rightarrow>
          (if offset w > 0 then
             (case slice_to (buffer w) (offset w) of
                Inl e \<Rightarrow> Inl e
              | Inr b \<Rightarrow> (case emit yield b w of (r, w') \<Rightarrow> Inr (cons w', trace w')))
           else Inr (cons w, trace w)))"

definition merge ::
  "'a \<Rightarrow> (('a \<Rightarrow> 'a \<Rightarrow> int) \<Rightarrow> 'a list list list \<Rightarrow> 'a list) \<Rightarrow> ('a \<Rightarrow> 'a \<Rightarrow> int)
     \<Rightarrow> 'a list list list \<Rightarrow> ('a list, 'a, 's) seq" where
  "merge = merge_with bufferSize"

subsection \<open>The entry points (lines 13-56)\<close>

text \<open>A sequence of the caller, run by the consumer itself: it yields until told to stop.\<close>

fun range_over :: "('v, 's) yield \<Rightarrow> 'v list \<Rightarrow> 's \<Rightarrow> 's" where
  "range_over yield [] c = c"
| "range_over yield (v # vs) c =
     (case yield c v of (r, c') \<Rightarrow> if r then range_over yield vs c' else c')"

definition given :: "'v list \<Rightarrow> ('v, 'a, 's) seq" where
  "given xs yield c = Inr (range_over yield xs c, [])"

text \<open>\<^verbatim>\<open>func(func(V) bool) {}\<close>\<close>

definition empty_seq :: "('v, 'a, 's) seq" where
  "empty_seq yield c = Inr (c, [])"

text \<open>
  Modelled from the spec: \<^verbatim>\<open>bufferedFunc\<close> is called by \<^verbatim>\<open>MergeFunc\<close> and is not part
  of merge.go. The spec (4.1, 2 and 3) has it cut the source, in order, into batches
  of the fixed capacity \<open>B\<close>, the last one possibly shorter, none empty, whose
  concatenation is the source.
\<close>

function bufferedFunc :: "nat \<Rightarrow> 'a list \<Rightarrow> 'a list list" where
  "bufferedFunc B xs =
     (if B = 0 \<or> xs = [] then [] else take B xs # bufferedFunc B (drop B xs))"
  by pat_completeness auto
termination
  by (relation "measure (\<lambda>(B, xs). length xs)") auto

declare bufferedFunc.simps [simp del]

definition MergeSliceFunc ::
  "'a \<Rightarrow> (('a \<Rightarrow> 'a \<Rightarrow> int) \<Rightarrow> 'a list list list \<Rightarrow> 'a list) \<Rightarrow> ('a \<Rightarrow> 'a \<Rightarrow> int)
     \<Rightarrow> 'a list list list \<Rightarrow> ('a list, 'a, 's) seq" where
  "MergeSliceFunc z tree cmp seqs =
     (case seqs of
        [] \<Rightarrow> empty_seq
      | [s] \<Rightarrow> given s
      | [s0, s1] \<Rightarrow> merge2 z cmp s0 s1
      | _ \<Rightarrow> merge z tree cmp seqs)"

definition MergeFunc ::
  "'a \<Rightarrow> (('a \<Rightarrow> 'a \<Rightarrow> int) \<Rightarrow> 'a list list list \<Rightarrow> 'a list) \<Rightarrow> ('a \<Rightarrow> 'a \<Rightarrow> int)
     \<Rightarrow> 'a list list \<Rightarrow> ('a, 'a, 's) seq" where
  "MergeFunc z tree cmp seqs =
     (case seqs of
        [] \<Rightarrow> empty_seq
      | [s] \<Rightarrow> given s
      | [s0, s1] \<Rightarrow>
          debuffer (merge2 z cmp (bufferedFunc bufferSize s0) (bufferedFunc bufferSize s1))
      | _ \<Rightarrow> debuffer (merge z tree cmp (map (bufferedFunc bufferSize) seqs)))"

text \<open>
  \<^verbatim>\<open>MergeFunc\<close> with the constant \<^verbatim>\<open>bufferSize\<close> replaced by \<open>B\<close> wherever the source
  uses it: as the capacity of the batches of \<^verbatim>\<open>bufferedFunc\<close> (lines 29-30 and 35) and
  as the length of the buffer of \<^verbatim>\<open>merge2\<close> and \<^verbatim>\<open>merge\<close> (lines 83 and 154).
\<close>

definition MergeFunc_with ::
  "nat \<Rightarrow> 'a \<Rightarrow> (('a \<Rightarrow> 'a \<Rightarrow> int) \<Rightarrow> 'a list list list \<Rightarrow> 'a list) \<Rightarrow> ('a \<Rightarrow> 'a \<Rightarrow> int)
     \<Rightarrow> 'a list list \<Rightarrow> ('a, 'a, 's) seq" where
  "MergeFunc_with B z tree cmp seqs =
     (case seqs of
        [] \<Rightarrow> empty_seq
      | [s] \<Rightarrow> given s
      | [s0, s1] \<Rightarrow> debuffer (merge2_with B z cmp (bufferedFunc B s0) (bufferedFunc B s1))
      | _ \<Rightarrow> debuffer (merge_with B z tree cmp (map (bufferedFunc B) seqs)))"

text \<open>\<^verbatim>\<open>cmp.Compare\<close> on a totally ordered type.\<close>

definition Compare :: "'a::linorder \<Rightarrow> 'a \<Rightarrow> int" where
  "Compare x y = (if x < y then - 1 else if y < x then 1 else 0)"

definition Merge ::
  "'a::linorder \<Rightarrow> (('a \<Rightarrow> 'a \<Rightarrow> int) \<Rightarrow> 'a list list list \<Rightarrow> 'a list) \<Rightarrow> 'a list list
     \<Rightarrow> ('a, 'a, 's) seq" where
  "Merge z tree seqs = MergeFunc z tree Compare seqs"

definition MergeSlice ::
  "'a::linorder \<Rightarrow> (('a \<Rightarrow> 'a \<Rightarrow> int) \<Rightarrow> 'a list list list \<Rightarrow> 'a list) \<Rightarrow> 'a list list list
     \<Rightarrow> ('a list, 'a, 's) seq" where
  "MergeSlice z tree seqs = MergeSliceFunc z tree Compare seqs"

subsection \<open>Consumers\<close>

text \<open>The consumer that takes everything, and the one that stops at its \<open>m\<close>-th value.\<close>

definition collect :: "('v, 'v list) yield" where
  "collect c v = (True, c @ [v])"


subsection \<open>Observations\<close>

text \<open>What the consumer holds at the end of a run, and the batches the log says it was handed.\<close>

definition received :: "error + 's \<times> 'a event list \<Rightarrow> error + 's" where
  "received r = map_sum id fst r"

fun yielded :: "'a event list \<Rightarrow> 'a list list" where
  "yielded [] = []"
| "yielded (Yield b r # es) = b # yielded es"
| "yielded (e # es) = yielded es"

text \<open>
  The values emitted so far: those of the batches handed over, then those waiting in
  the buffer below the offset.
\<close>

definition emitted :: "('a, 's) out \<Rightarrow> 'a list" where
  "emitted w = concat (yielded (trace w)) @ take (offset w) (buffer w)"




text \<open>The buffer has its \<open>B\<close> places and the offset is within them.\<close>

definition fits :: "nat \<Rightarrow> ('a, 's) out \<Rightarrow> bool" where
  "fits B w = (length (buffer w) = B \<and> offset w \<le> B)"

subsection \<open>Relating two runs\<close>

text \<open>
  \<open>feed\<close> hands a list of items to a consumer, one after the other, until it refuses
  one. A log is \<open>live\<close> when no call of \<^verbatim>\<open>yield\<close> in it was refused, and \<open>halted\<close> when
  its last event is the first refused call.
\<close>

fun feed :: "('v, 's) yield \<Rightarrow> 's \<Rightarrow> 'v list \<Rightarrow> bool \<times> 's" where
  "feed yield c [] = (True, c)"
| "feed yield c (b # bs) =
     (case yield c b of (r, c') \<Rightarrow> if r then feed yield c' bs else (False, c'))"

fun refusal :: "'a event \<Rightarrow> bool" where
  "refusal (Yield b r) = (\<not> r)"
| "refusal e = False"

definition live :: "'a event list \<Rightarrow> bool" where
  "live t = (\<forall>e\<in>set t. \<not> refusal e)"

definition halted :: "'a event list \<Rightarrow> bool" where
  "halted t = (\<exists>t' b. t = t' @ [Yield b False] \<and> live t')"

text \<open>
  A run with an arbitrary consumer \<open>y\<close>, started in state \<open>c0\<close>, is compared with the
  run on the same input whose consumer \<open>collect\<close> takes every batch. While \<open>y\<close> has
  accepted everything the two runs are in step (\<open>sim\<close>, and \<open>simf\<close> for the frames of
  the outer loop); once \<open>y\<close> has refused a batch its run is over and the other one goes
  on alone (\<open>severed\<close>). \<open>grows\<close> says that the collecting run has only added batches.
\<close>

definition grows :: "nat \<Rightarrow> ('a, 'a list list) out \<Rightarrow> ('a, 'a list list) out \<Rightarrow> bool" where
  "grows B u u' = (fits B u' \<and> (\<exists>more. cons u' = cons u @ more))"

definition sim :: "('a list, 's) yield \<Rightarrow> 's \<Rightarrow> ('a, 's) out \<Rightarrow> ('a, 'a list list) out \<Rightarrow> bool" where
  "sim y c0 w u =
     (buffer w = buffer u \<and> offset w = offset u \<and> trace w = trace u \<and> live (trace w)
      \<and> feed y c0 (cons u) = (True, cons w))"

definition severed :: "('a list, 's) yield \<Rightarrow> 's \<Rightarrow> ('a, 's) out \<Rightarrow> ('a, 'a list list) out \<Rightarrow> bool" where
  "severed y c0 w u = (halted (trace w) \<and> feed y c0 (cons u) = (False, cons w))"

definition simf :: "('a list, 's) yield \<Rightarrow> 's \<Rightarrow> ('a, 's) frame \<Rightarrow> ('a, 'a list list) frame \<Rightarrow> bool" where
  "simf y c0 f g =
     (next0 f = next0 g \<and> next1 f = next1 g \<and> values0 f = values0 g \<and> ok0 f = ok0 g
      \<and> values1 f = values1 g \<and> ok1 f = ok1 g \<and> sim y c0 (world f) (world g))"

text \<open>
  Two collecting runs with buffers of different lengths are compared by the values
  they have emitted (\<open>flat\<close>, \<open>alike\<close>); \<open>chosen\<close> is what one comparison decides: how
  far each cursor moves and which values are emitted.
\<close>

definition flat :: "('a, 'a list list) out \<Rightarrow> 'a list" where
  "flat u = concat (cons u) @ take (offset u) (buffer u)"

definition chosen :: "('a \<Rightarrow> 'a \<Rightarrow> int) \<Rightarrow> 'a \<Rightarrow> 'a \<Rightarrow> nat \<times> nat \<times> 'a list" where
  "chosen cmp v0 v1 =
     (if cmp v0 v1 < 0 then (1, 0, [v0])
      else if cmp v0 v1 > 0 then (0, 1, [v1])
      else (1, 1, [v0, v1]))"

definition alike :: "nat \<Rightarrow> nat \<Rightarrow> ('a, 'a list list) frame \<Rightarrow> ('a, 'a list list) frame \<Rightarrow> bool" where
  "alike B B' g g' =
     (next0 g = next0 g' \<and> next1 g = next1 g' \<and> values0 g = values0 g' \<and> ok0 g = ok0 g'
      \<and> values1 g = values1 g' \<and> ok1 g = ok1 g'
      \<and> fits B (world g) \<and> fits B' (world g') \<and> flat (world g) = flat (world g'))"

section \<open>Absence of run-time panics\<close>

lemma emit_buffer:
  "emit yield b w = (r, w') \<Longrightarrow> buffer w' = buffer w \<and> offset w' = offset w"
  by (auto simp: emit_def logged_def split: prod.splits)

lemma make_room_fits:
  assumes "fits B w" and "2 \<le> B"
  shows "case make_room yield w of
           Panic e \<Rightarrow> False
         | Return w' \<Rightarrow> True
         | Next w' \<Rightarrow> fits B w' \<and> offset w' + 1 < B"
  using assms
  by (auto simp: make_room_def fits_def slice_to_def split: sum.splits prod.splits dest: emit_buffer)

lemma merge2_step_fits:
  assumes "fits B w" and "2 \<le> B" and "i0 < length vs0" and "i1 < length vs1"
  shows "case merge2_step cmp yield vs0 vs1 i0 i1 w of
           Panic e \<Rightarrow> False
         | Return w' \<Rightarrow> True
         | Next (j0, j1, w') \<Rightarrow> fits B w'"
proof -
  from make_room_fits [OF assms(1,2), of yield] show ?thesis
    using assms(3,4)
    by (auto simp: merge2_step_def index_def assign_def fits_def logged_def Let_def
             split: outcome.splits)
qed

lemma merge2_inner_done:
  "\<not> (i0 < length vs0 \<and> i1 < length vs1) \<Longrightarrow> merge2_inner cmp yield vs0 vs1 i0 i1 w = Next (i0, i1, w)"
  by (auto simp: merge2_inner.simps [of cmp yield vs0 vs1 i0 i1 w])

lemma merge2_inner_more:
  "i0 < length vs0 \<Longrightarrow> i1 < length vs1 \<Longrightarrow>
     merge2_inner cmp yield vs0 vs1 i0 i1 w =
       (case merge2_step cmp yield vs0 vs1 i0 i1 w of
          Next (j0, j1, w') \<Rightarrow> merge2_inner cmp yield vs0 vs1 j0 j1 w'
        | Return w' \<Rightarrow> Return w'
        | Panic e \<Rightarrow> Panic e)"
  by (simp add: merge2_inner.simps [of cmp yield vs0 vs1 i0 i1 w])

lemma merge2_inner_cases [consumes 0, case_names finished iterate]:
  assumes "\<And>i0 i1 w. \<not> (i0 < length vs0 \<and> i1 < length vs1) \<Longrightarrow> P i0 i1 w"
    and "\<And>i0 i1 w. i0 < length vs0 \<Longrightarrow> i1 < length vs1 \<Longrightarrow>
           (\<And>j0 j1 w'. merge2_step cmp yield vs0 vs1 i0 i1 w = Next (j0, j1, w') \<Longrightarrow> P j0 j1 w')
           \<Longrightarrow> P i0 i1 w"
  shows "P i0 i1 w"
  using assms
proof (induction cmp yield vs0 vs1 i0 i1 w rule: merge2_inner.induct)
  case (1 cmp yield values0 values1 i0 i1 w)
  show ?case
  proof (cases "i0 < length values0 \<and> i1 < length values1")
    case False
    then show ?thesis by (rule "1.prems"(1))
  next
    case True
    show ?thesis
    proof (rule "1.prems"(2))
      show "i0 < length values0" "i1 < length values1" using True by auto
    next
      fix j0 j1 w'
      assume "merge2_step cmp yield values0 values1 i0 i1 w = Next (j0, j1, w')"
      from "1.IH" [OF True this refl refl "1.prems"] show "P j0 j1 w'" .
    qed
  qed
qed

lemma merge2_inner_fits:
  assumes "2 \<le> B"
  shows "fits B w \<Longrightarrow>
     (case merge2_inner cmp yield vs0 vs1 i0 i1 w of
        Panic e \<Rightarrow> False
      | Return w' \<Rightarrow> True
      | Next (j0, j1, w') \<Rightarrow> fits B w')"
proof (induction i0 i1 w rule: merge2_inner_cases [where cmp = cmp and yield = yield and ?vs0.0 = vs0 and ?vs1.0 = vs1])
  case (finished i0 i1 w)
  then show ?case by (simp add: merge2_inner_done)
next
  case (iterate i0 i1 w)
  from merge2_step_fits [OF iterate.prems assms iterate.hyps, of cmp yield] iterate.IH
  show ?case
    by (auto simp: merge2_inner_more [OF iterate.hyps] split: outcome.splits)
qed

lemma pull_world:
  "pull k src w = ((vs, ok), src', w') \<Longrightarrow> buffer w' = buffer w \<and> offset w' = offset w \<and> cons w' = cons w"
  by (auto simp: pull_def logged_def split: list.splits)

lemma refill0_fits [simp]: "fits B (world (refill0 i f)) = fits B (world f)"
  by (auto simp: refill0_def fits_def split: prod.splits dest: pull_world)

lemma refill1_fits [simp]: "fits B (world (refill1 i f)) = fits B (world f)"
  by (auto simp: refill1_def fits_def split: prod.splits dest: pull_world)

lemma merge2_round_fits:
  assumes "fits B (world f)" and "2 \<le> B"
  shows "case merge2_round cmp yield f of
           Panic e \<Rightarrow> False
         | Return w' \<Rightarrow> True
         | Next f' \<Rightarrow> fits B (world f')"
  using merge2_inner_fits [OF assms(2,1), of cmp yield "values0 f" "values1 f" 0 0]
  by (auto simp: merge2_round_def split: outcome.splits)

lemma merge2_loop_fits:
  "fits B (world f) \<Longrightarrow> 2 \<le> B \<Longrightarrow>
     (case merge2_loop cmp yield f of
        Panic e \<Rightarrow> False
      | Return w' \<Rightarrow> True
      | Next f' \<Rightarrow> fits B (world f'))"
proof (induction cmp yield f rule: merge2_loop.induct)
  case (1 cmp yield f)
  show ?case
  proof (cases "ok0 f \<and> ok1 f")
    case False
    with "1.prems" show ?thesis
      by (auto simp: merge2_loop.simps [of cmp yield f])
  next
    case True
    from merge2_round_fits [OF "1.prems", of cmp yield] "1.IH" [OF True] "1.prems"(2) True
    show ?thesis
      by (auto simp: merge2_loop.simps [of cmp yield f] split: outcome.splits)
  qed
qed

lemma merge2_tail_fits:
  "fits B (world f) \<Longrightarrow> \<exists>w'. merge2_tail yield f = Inr w'"
  by (auto simp: merge2_tail_def fits_def slice_to_def split: prod.splits)

lemma merge2_body_total:
  assumes "2 \<le> B"
  shows "\<exists>w'. merge2_body B z cmp seq0 seq1 yield c = Inr w'"
proof -
  obtain vs0 k0 src0 w0 where p0:
    "pull 0 seq0 \<lparr>buffer = [], offset = 0, cons = c, trace = []\<rparr> = ((vs0, k0), src0, w0)"
    by (metis prod.exhaust)
  obtain vs1 k1 src1 w1 where p1: "pull 1 seq1 w0 = ((vs1, k1), src1, w1)"
    by (metis prod.exhaust)
  let ?f = "\<lparr>next0 = src0, next1 = src1, values0 = vs0, ok0 = k0, values1 = vs1, ok1 = k1,
              world = w1\<lparr>buffer := replicate B z, offset := 0\<rparr>\<rparr>"
  have "fits B (world ?f)"
    by (simp add: fits_def)
  from merge2_loop_fits [OF this assms, of cmp yield] show ?thesis
    by (auto simp del: One_nat_def simp add: merge2_body_def p0 p1 split: outcome.splits
             dest: merge2_tail_fits)
qed

lemma merge2_with_total:
  "2 \<le> B \<Longrightarrow> \<exists>r. merge2_with B z cmp seq0 seq1 yield c = Inr r"
  using merge2_body_total [of B z cmp seq0 seq1 yield c]
  by (auto simp: merge2_with_def)

lemma merge_loop_fits:
  "fits B w \<Longrightarrow> offset w < B \<Longrightarrow>
     (case merge_loop yield vs w of
        Panic e \<Rightarrow> False
      | Return w' \<Rightarrow> True
      | Next w' \<Rightarrow> fits B w' \<and> offset w' < B)"
proof (induction vs arbitrary: w)
  case Nil
  then show ?case by simp
next
  case (Cons v vs)
  show ?case
  proof (cases "offset w + 1 = B")
    case True
    obtain r w' where e: "emit yield ((buffer w)[offset w := v]) (w\<lparr>buffer := (buffer w)[offset w := v], offset := offset w + 1\<rparr>) = (r, w')"
      by (metis prod.exhaust)
    from emit_buffer [OF e] Cons.prems True have "fits B (w'\<lparr>offset := 0\<rparr>)" "offset (w'\<lparr>offset := 0\<rparr>) < B"
      by (auto simp: fits_def)
    from Cons.IH [OF this] Cons.prems True e show ?thesis
      by (auto simp: assign_def fits_def Let_def)
  next
    case False
    with Cons.prems have "fits B (w\<lparr>buffer := (buffer w)[offset w := v], offset := offset w + 1\<rparr>)"
      "offset (w\<lparr>buffer := (buffer w)[offset w := v], offset := offset w + 1\<rparr>) < B"
      by (auto simp: fits_def)
    from Cons.IH [OF this] Cons.prems False show ?thesis
      by (auto simp: assign_def fits_def Let_def)
  qed
qed

lemma merge_with_total:
  assumes "1 \<le> B"
  shows "\<exists>r. merge_with B z tree cmp seqs yield c = Inr r"
proof -
  let ?w = "\<lparr>buffer = replicate B z, offset = 0, cons = c, trace = []\<rparr>"
  have "fits B ?w" "offset ?w < B" using assms by (auto simp: fits_def)
  from merge_loop_fits [OF this, of yield "tree cmp seqs"] show ?thesis
    by (auto simp: merge_with_def fits_def slice_to_def split: outcome.splits prod.splits)
qed

text \<open>
  C9: for any input batches (empty ones included), any comparison function and any
  consumer, no index and no slice bound in \<^verbatim>\<open>merge2\<close> or in \<^verbatim>\<open>merge\<close> is ever out of
  range: both always run to their end without a panic.
\<close>

theorem merge_never_faults:
  "(\<exists>r. merge2 z cmp seq0 seq1 yield c = Inr r) \<and> (\<exists>r. merge z tree cmp seqs yield c = Inr r)"
  using merge2_with_total [of bufferSize z cmp seq0 seq1 yield c]
        merge_with_total [of bufferSize z tree cmp seqs yield c]
  by (simp add: merge2_def merge_def bufferSize_def)

section \<open>The batches of the k-way engine\<close>

lemma yielded_append: "yielded (es @ fs) = yielded es @ yielded fs"
  by (induction es rule: yielded.induct) simp_all

lemma emit_trace:
  "emit yield b w = (r, w') \<Longrightarrow> trace w' = trace w @ [Yield b r]"
  by (auto simp: emit_def logged_def split: prod.splits)

lemma merge_loop_batches:
  "fits B w \<Longrightarrow> offset w < B \<Longrightarrow> \<forall>b\<in>set (yielded (trace w)). length b = B \<Longrightarrow>
     (case merge_loop yield vs w of
        Panic e \<Rightarrow> False
      | Return w' \<Rightarrow> \<forall>b\<in>set (yielded (trace w')). length b = B
      | Next w' \<Rightarrow> fits B w' \<and> offset w' < B \<and> (\<forall>b\<in>set (yielded (trace w')). length b = B))"
proof (induction vs arbitrary: w)
  case Nil
  then show ?case by simp
next
  case (Cons v vs)
  let ?w1 = "w\<lparr>buffer := (buffer w)[offset w := v], offset := offset w + 1\<rparr>"
  show ?case
  proof (cases "offset w + 1 = B")
    case True
    obtain r w' where e: "emit yield (buffer ?w1) ?w1 = (r, w')"
      by (metis prod.exhaust)
    from emit_trace [OF e] Cons.prems
    have t: "\<forall>b\<in>set (yielded (trace w')). length b = B"
      by (auto simp: yielded_append fits_def)
    from emit_buffer [OF e] Cons.prems True
    have "fits B (w'\<lparr>offset := 0\<rparr>)" "offset (w'\<lparr>offset := 0\<rparr>) < B"
      by (auto simp: fits_def)
    with t have "case merge_loop yield vs (w'\<lparr>offset := 0\<rparr>) of
        Panic e \<Rightarrow> False
      | Return w' \<Rightarrow> \<forall>b\<in>set (yielded (trace w')). length b = B
      | Next w' \<Rightarrow> fits B w' \<and> offset w' < B \<and> (\<forall>b\<in>set (yielded (trace w')). length b = B)"
      by (intro Cons.IH) simp_all
    with t Cons.prems True e show ?thesis
      by (simp add: assign_def fits_def Let_def)
  next
    case False
    with Cons.prems have "fits B ?w1" "offset ?w1 < B" "\<forall>b\<in>set (yielded (trace ?w1)). length b = B"
      by (auto simp: fits_def)
    from Cons.IH [OF this] Cons.prems False show ?thesis
      by (simp add: assign_def fits_def Let_def)
  qed
qed

lemma merge_with_batches:
  assumes "1 \<le> B"
  shows "\<exists>c' t. merge_with B z tree cmp seqs yield c = Inr (c', t)
           \<and> (\<forall>b\<in>set (yielded t). b \<noteq> [] \<and> length b \<le> B)
           \<and> (\<forall>b\<in>set (butlast (yielded t)). length b = B)"
proof -
  let ?w = "\<lparr>buffer = replicate B z, offset = 0, cons = c, trace = []\<rparr>"
  have s: "fits B ?w" "offset ?w < B" "\<forall>b\<in>set (yielded (trace ?w)). length b = B"
    using assms by (auto simp: fits_def)
  show ?thesis
  proof (cases "merge_loop yield (tree cmp seqs) ?w")
    case (Panic e)
    with merge_loop_batches [OF s, of yield "tree cmp seqs"] show ?thesis by simp
  next
    case (Return w')
    with merge_loop_batches [OF s, of yield "tree cmp seqs"] assms show ?thesis
      by (auto simp: merge_with_def dest: in_set_butlastD)
  next
    case (Next w')
    with merge_loop_batches [OF s, of yield "tree cmp seqs"]
    have w': "fits B w'" "offset w' < B" "\<forall>b\<in>set (yielded (trace w')). length b = B"
      by auto
    show ?thesis
    proof (cases "offset w' > 0")
      case False
      with Next w' assms show ?thesis
        by (auto simp: merge_with_def dest: in_set_butlastD)
    next
      case True
      obtain r w'' where e: "emit yield (take (offset w') (buffer w')) w' = (r, w'')"
        by (metis prod.exhaust)
      from emit_trace [OF e] have "yielded (trace w'') = yielded (trace w') @ [take (offset w') (buffer w')]"
        by (simp add: yielded_append)
      with Next w' True e assms show ?thesis
        by (auto simp: merge_with_def slice_to_def fits_def)
    qed
  qed
qed


text \<open>
  C10: whatever values the tree produces, every batch that \<^verbatim>\<open>merge\<close> hands to the
  consumer is non-empty and has at most \<^verbatim>\<open>bufferSize\<close> = 128 values, and every batch
  but the last has exactly \<^verbatim>\<open>bufferSize\<close> values.
\<close>

theorem merge_batch_lengths:
  "\<exists>c' t. merge z tree cmp seqs yield c = Inr (c', t)
     \<and> (\<forall>b\<in>set (yielded t). b \<noteq> [] \<and> length b \<le> bufferSize)
     \<and> (\<forall>b\<in>set (butlast (yielded t)). length b = bufferSize)"
  using merge_with_batches [of bufferSize z tree cmp seqs yield c]
  by (simp add: merge_def bufferSize_def)

theorem merge_batch_lengths_witness:
  "merge (0::int) (\<lambda>cmp seqs. replicate 129 7) Compare [] collect []
     = Inr ([replicate 128 7, [7]], [Yield (replicate 128 7) True, Yield [7] True])
   \<and> replicate 128 (7::int) \<noteq> [] \<and> [7::int] \<noteq> []
   \<and> length [7::int] \<le> bufferSize
   \<and> length (replicate 128 (7::int)) = bufferSize"
proof -
  have e: "merge (0::int) (\<lambda>cmp seqs. replicate 129 7) Compare [] collect []
             = Inr ([replicate 128 7, [7]], [Yield (replicate 128 7) True, Yield [7] True])"
    by code_simp
  from merge_batch_lengths [of "0::int" "\<lambda>cmp seqs. replicate 129 (7::int)" Compare "[]" collect "[]"] e
  show ?thesis by simp
qed

section \<open>Equal heads in the two-way merge\<close>

lemma take_store1: "n < length xs \<Longrightarrow> take (Suc n) (xs[n := a]) = take n xs @ [a]"
  by (simp add: take_Suc_conv_app_nth)

lemma take_store2:
  "Suc n < length xs \<Longrightarrow> take (Suc (Suc n)) (xs[n := a, Suc n := b]) = take n xs @ [a, b]"
  by (simp add: take_Suc_conv_app_nth)

lemma make_room_emitted:
  assumes "fits B w" and "2 \<le> B"
  shows "case make_room yield w of
           Panic e \<Rightarrow> False
         | Return w' \<Rightarrow> \<exists>b. trace w' = trace w @ [Yield b False]
         | Next w' \<Rightarrow> fits B w' \<and> offset w' + 1 < B \<and> emitted w' = emitted w
                      \<and> (trace w' = trace w \<or> (\<exists>b. trace w' = trace w @ [Yield b True]))"
proof (cases "offset w + 1 \<ge> length (buffer w)")
  case False
  with assms show ?thesis by (simp add: make_room_def fits_def)
next
  case True
  obtain r w' where e: "emit yield (take (offset w) (buffer w)) w = (r, w')"
    by (metis prod.exhaust)
  from emit_trace [OF e] emit_buffer [OF e] assms True e show ?thesis
    by (auto simp: make_room_def fits_def slice_to_def emitted_def yielded_append)
qed

lemma merge2_step_on_equal_gen:
  assumes "i0 < length vs0" and "i1 < length vs1" and "cmp (vs0 ! i0) (vs1 ! i1) = 0"
    and "fits B w" and "2 \<le> B"
  shows "case merge2_step cmp yield vs0 vs1 i0 i1 w of
           Panic e \<Rightarrow> False
         | Return w' \<Rightarrow> \<exists>b. trace w' = trace w @ [Yield b False]
         | Next (j0, j1, w') \<Rightarrow>
             j0 = i0 + 1 \<and> j1 = i1 + 1 \<and> emitted w' = emitted w @ [vs0 ! i0, vs1 ! i1]"
proof (cases "make_room yield w")
  case (Panic e)
  with make_room_emitted [OF assms(4,5), of yield] show ?thesis by simp
next
  case (Return w')
  with make_room_emitted [OF assms(4,5), of yield] assms(1,2) show ?thesis
    by (simp add: merge2_step_def index_def)
next
  case (Next w1)
  with make_room_emitted [OF assms(4,5), of yield]
  have w1: "fits B w1" "offset w1 + 1 < B" "emitted w1 = emitted w" by auto
  then have "Suc (offset w1) < length (buffer w1)" by (simp add: fits_def)
  from take_store2 [OF this] w1 Next assms(1,2,3) show ?thesis
    by (simp add: merge2_step_def index_def assign_def logged_def Let_def emitted_def
                  fits_def yielded_append)
qed

lemma emit_collect:
  "emit collect b u = (True, u\<lparr>cons := cons u @ [b], trace := trace u @ [Yield b True]\<rparr>)"
  by (simp add: emit_def collect_def logged_def)

lemma feed_append:
  "feed yield c (xs @ ys) =
     (case feed yield c xs of (r, c') \<Rightarrow> if r then feed yield c' ys else (False, c'))"
  by (induction xs arbitrary: c) (auto split: prod.splits)

lemma feed_collect: "feed collect c bs = (True, c @ bs)"
  by (induction bs arbitrary: c) (simp_all add: collect_def)

lemma live_simps [simp]:
  "live []" "live (t @ [Pull k ok]) = live t" "live (t @ [Cmp a b]) = live t"
  "live (t @ [Yield bb True]) = live t" "\<not> live (t @ [Yield bb False])"
  by (auto simp: live_def)

lemma grows_refl: "fits B u \<Longrightarrow> grows B u u"
  by (simp add: grows_def)

lemma grows_trans: "grows B u u' \<Longrightarrow> grows B u' u'' \<Longrightarrow> grows B u u''"
  by (auto simp: grows_def)

lemma make_room_collect:
  assumes "fits B u" and "2 \<le> B"
  shows "\<exists>u'. make_room collect u = Next u' \<and> grows B u u' \<and> offset u' + 1 < B"
  using assms
  by (auto simp: make_room_def slice_to_def emit_collect fits_def grows_def)

lemma merge2_step_collect:
  assumes "fits B u" and "2 \<le> B" and "i0 < length vs0" and "i1 < length vs1"
  shows "\<exists>j0 j1 u'. merge2_step cmp collect vs0 vs1 i0 i1 u = Next (j0, j1, u') \<and> grows B u u'"
proof -
  from make_room_collect [OF assms(1,2)] obtain u1 where
    u1: "make_room collect u = Next u1" "grows B u u1" "offset u1 + 1 < B"
    by blast
  then show ?thesis using assms(3,4)
    by (auto simp: merge2_step_def index_def assign_def logged_def Let_def grows_def fits_def)
qed


text \<open>
  C6: one pass through the body of the inner loop of \<^verbatim>\<open>merge2\<close> when the comparison
  function reports the two heads equal. Either the consumer refused the batch handed
  over at lines 94-99 and the function returns before comparing, or both heads are
  emitted, the one of the left source immediately before the one of the right source,
  and both cursors advance by one: neither value is dropped.
\<close>

theorem merge2_step_on_equal:
  assumes "i0 < length vs0" and "i1 < length vs1" and "cmp (vs0 ! i0) (vs1 ! i1) = 0"
    and "fits bufferSize w"
  shows "case merge2_step cmp yield vs0 vs1 i0 i1 w of
           Panic e \<Rightarrow> False
         | Return w' \<Rightarrow> \<exists>b. trace w' = trace w @ [Yield b False]
         | Next (j0, j1, w') \<Rightarrow>
             j0 = i0 + 1 \<and> j1 = i1 + 1 \<and> emitted w' = emitted w @ [vs0 ! i0, vs1 ! i1]"
  using assms
    merge2_step_on_equal_gen [where cmp = cmp and ?vs0.0 = vs0 and ?vs1.0 = vs1 and ?i0.0 = i0
      and ?i1.0 = i1 and B = bufferSize and w = w and yield = yield]
  by (simp add: bufferSize_def)

theorem merge2_step_on_equal_witness:
  "(0::nat) < length [5::int] \<and> Compare ([5::int] ! 0) ([5] ! 0) = 0
   \<and> fits bufferSize \<lparr>buffer = replicate bufferSize (0::int), offset = 0,
                      cons = [] :: int list list, trace = []\<rparr>
   \<and> (\<exists>w'. merge2_step Compare collect [5] [5] 0 0
               \<lparr>buffer = replicate bufferSize (0::int), offset = 0, cons = [], trace = []\<rparr>
             = Next (1, 1, w')
           \<and> emitted w' = [5, 5])"
proof -
  let ?w = "\<lparr>buffer = replicate bufferSize (0::int), offset = 0, cons = [] :: int list list,
             trace = []\<rparr>"
  have h: "(0::nat) < length [5::int]" "Compare ([5::int] ! 0) ([5] ! 0) = 0" "fits bufferSize ?w"
    by (simp_all add: Compare_def fits_def)
  have b: "2 \<le> bufferSize" by (simp add: bufferSize_def)
  from merge2_step_collect [OF h(3) b h(1) h(1), of Compare] obtain j0 j1 u' where
    s: "merge2_step Compare collect [5] [5] 0 0 ?w = Next (j0, j1, u')"
    by blast
  from h s
    merge2_step_on_equal [where cmp = Compare and ?vs0.0 = "[5::int]" and ?vs1.0 = "[5::int]"
      and ?i0.0 = 0 and ?i1.0 = 0 and w = ?w and yield = collect]
  have "j0 = 1" "j1 = 1" "emitted u' = [5, 5]"
    by (simp_all add: emitted_def)
  with s h show ?thesis by simp
qed

section \<open>The run of a consumer that takes everything\<close>

lemma merge2_inner_collect:
  assumes "2 \<le> B"
  shows "fits B u \<Longrightarrow>
     \<exists>j0 j1 u'. merge2_inner cmp collect vs0 vs1 i0 i1 u = Next (j0, j1, u') \<and> grows B u u'"
proof (induction i0 i1 u rule: merge2_inner_cases [where cmp = cmp and yield = collect and ?vs0.0 = vs0 and ?vs1.0 = vs1])
  case (finished i0 i1 u)
  then show ?case by (simp add: merge2_inner_done grows_refl)
next
  case (iterate i0 i1 u)
  from merge2_step_collect [OF iterate.prems assms iterate.hyps, of cmp] obtain j0 j1 u1 where
    s: "merge2_step cmp collect vs0 vs1 i0 i1 u = Next (j0, j1, u1)" "grows B u u1"
    by blast
  then have "fits B u1" by (simp add: grows_def)
  from iterate.IH [OF s(1) this] obtain k0 k1 u' where
    r: "merge2_inner cmp collect vs0 vs1 j0 j1 u1 = Next (k0, k1, u')" "grows B u1 u'"
    by blast
  from r(1) s(1) have "merge2_inner cmp collect vs0 vs1 i0 i1 u = Next (k0, k1, u')"
    by (simp add: merge2_inner_more [OF iterate.hyps])
  with grows_trans [OF s(2) r(2)] show ?case by blast
qed

lemma merge2_loop_done:
  "\<not> (ok0 f \<and> ok1 f) \<Longrightarrow> merge2_loop cmp yield f = Next f"
  by (auto simp: merge2_loop.simps [of cmp yield f])

lemma merge2_loop_more:
  "ok0 f \<Longrightarrow> ok1 f \<Longrightarrow>
     merge2_loop cmp yield f =
       (case merge2_round cmp yield f of
          Next f' \<Rightarrow> merge2_loop cmp yield f'
        | Return w' \<Rightarrow> Return w'
        | Panic e \<Rightarrow> Panic e)"
  by (simp add: merge2_loop.simps [of cmp yield f])

lemma merge2_loop_cases [consumes 0, case_names finished iterate]:
  assumes "\<And>f. \<not> (ok0 f \<and> ok1 f) \<Longrightarrow> P f"
    and "\<And>f. ok0 f \<Longrightarrow> ok1 f \<Longrightarrow>
           (\<And>f'. merge2_round cmp yield f = Next f' \<Longrightarrow> P f') \<Longrightarrow> P f"
  shows "P f"
  using assms
proof (induction cmp yield f rule: merge2_loop.induct)
  case (1 cmp yield f)
  show ?case
  proof (cases "ok0 f \<and> ok1 f")
    case False
    then show ?thesis by (rule "1.prems"(1))
  next
    case True
    show ?thesis
    proof (rule "1.prems"(2))
      show "ok0 f" "ok1 f" using True by auto
    next
      fix f'
      assume "merge2_round cmp yield f = Next f'"
      from "1.IH" [OF True this "1.prems"] show "P f'" .
    qed
  qed
qed

lemma flush_done: "flush yield k src vs False w = w"
  by (simp add: flush.simps [of yield k src vs False w])

lemma flush_more:
  "flush yield k src vs True w =
     (case emit yield vs w of
        (r, w') \<Rightarrow>
          if r then
            (case pull k src w' of
               ((vs', ok'), src', w'') \<Rightarrow> flush yield k src' vs' ok' w'')
          else w')"
  by (simp add: flush.simps [of yield k src vs True w])

lemma refill0_collect: "grows B u (world f) \<Longrightarrow> grows B u (world (refill0 i f))"
  by (auto simp: refill0_def grows_def fits_def split: prod.splits dest!: pull_world)

lemma refill1_collect: "grows B u (world f) \<Longrightarrow> grows B u (world (refill1 i f))"
  by (auto simp: refill1_def grows_def fits_def split: prod.splits dest!: pull_world)

lemma merge2_round_collect:
  assumes "fits B (world g)" and "2 \<le> B"
  shows "\<exists>g'. merge2_round cmp collect g = Next g' \<and> grows B (world g) (world g')"
proof -
  from merge2_inner_collect [OF assms(2,1), of cmp "values0 g" "values1 g" 0 0]
  obtain j0 j1 u' where
    i: "merge2_inner cmp collect (values0 g) (values1 g) 0 0 (world g) = Next (j0, j1, u')"
       "grows B (world g) u'"
    by blast
  from i(2) have "grows B (world g) (world (refill1 j1 (refill0 j0 (g\<lparr>world := u'\<rparr>))))"
    by (intro refill1_collect refill0_collect) simp
  with i(1) show ?thesis by (simp add: merge2_round_def)
qed

lemma merge2_loop_collect:
  assumes "2 \<le> B"
  shows "fits B (world g) \<Longrightarrow>
     \<exists>g'. merge2_loop cmp collect g = Next g' \<and> grows B (world g) (world g')
           \<and> \<not> (ok0 g' \<and> ok1 g')"
proof (induction g rule: merge2_loop_cases [where cmp = cmp and yield = collect])
  case (finished g)
  then show ?case by (simp add: merge2_loop_done grows_refl)
next
  case (iterate g)
  from merge2_round_collect [OF iterate.prems assms, of cmp] obtain g1 where
    s: "merge2_round cmp collect g = Next g1" "grows B (world g) (world g1)"
    by blast
  then have "fits B (world g1)" by (simp add: grows_def)
  from iterate.IH [OF s(1) this] obtain g' where
    r: "merge2_loop cmp collect g1 = Next g'" "grows B (world g1) (world g')"
       "\<not> (ok0 g' \<and> ok1 g')"
    by blast
  from r(1) s(1) have "merge2_loop cmp collect g = Next g'"
    by (simp add: merge2_loop_more [OF iterate.hyps])
  with grows_trans [OF s(2) r(2)] r(3) show ?case by blast
qed

lemma flush_cases [consumes 0, case_names finished iterate]:
  assumes "\<And>src vs w. P src vs False w"
    and "\<And>src vs w.
           (\<And>w' vs' ok' src' w''. emit yield vs w = (True, w') \<Longrightarrow>
               pull k src w' = ((vs', ok'), src', w'') \<Longrightarrow> P src' vs' ok' w'')
           \<Longrightarrow> P src vs True w"
  shows "P src vs ok w"
  using assms
proof (induction yield k src vs ok w rule: flush.induct)
  case (1 yield k src vs ok w)
  show ?case
  proof (cases ok)
    case False
    then show ?thesis using "1.prems"(1) by simp
  next
    case True
    have "P src vs True w"
    proof (rule "1.prems"(2))
      fix w' vs' ok' src' w''
      assume e: "emit yield vs w = (True, w')" and p: "pull k src w' = ((vs', ok'), src', w'')"
      from "1.IH" [OF True e [symmetric] _ p [symmetric] refl refl "1.prems"]
      show "P src' vs' ok' w''" by simp
    qed
    with True show ?thesis by simp
  qed
qed

lemma flush_collect: "fits B u \<Longrightarrow> grows B u (flush collect k src vs ok u)"
proof (induction src vs ok u rule: flush_cases [where yield = collect and k = k])
  case (finished src vs u)
  then show ?case by (simp add: flush_done grows_refl)
next
  case (iterate src vs u)
  let ?u1 = "u\<lparr>cons := cons u @ [vs], trace := trace u @ [Yield vs True]\<rparr>"
  obtain vs' ok' src' u2 where p: "pull k src ?u1 = ((vs', ok'), src', u2)"
    by (metis prod.exhaust)
  from pull_world [OF p] iterate.prems have g: "grows B u u2" "fits B u2"
    by (auto simp: grows_def fits_def)
  from iterate.IH [OF emit_collect p g(2)]
  have "grows B u2 (flush collect k src' vs' ok' u2)" .
  with g(1) p show ?case
    by (auto simp: flush_more emit_collect intro: grows_trans)
qed

lemma merge2_tail_collect:
  assumes "fits B (world g)"
  shows "\<exists>u'. merge2_tail collect g = Inr u' \<and> grows B (world g) u'"
proof -
  have both: "grows B u (flush collect 1 (next1 g) (values1 g) (ok1 g)
                           (flush collect 0 (next0 g) (values0 g) (ok0 g) u))"
    if "fits B u" for u
  proof -
    from that have g0: "grows B u (flush collect 0 (next0 g) (values0 g) (ok0 g) u)"
      by (rule flush_collect)
    then have "fits B (flush collect 0 (next0 g) (values0 g) (ok0 g) u)"
      by (simp add: grows_def)
    then have "grows B (flush collect 0 (next0 g) (values0 g) (ok0 g) u)
                 (flush collect 1 (next1 g) (values1 g) (ok1 g)
                    (flush collect 0 (next0 g) (values0 g) (ok0 g) u))"
      by (rule flush_collect)
    with g0 show ?thesis by (rule grows_trans)
  qed
  show ?thesis
  proof (cases "offset (world g) > 0")
    case False
    with both [OF assms] show ?thesis by (simp add: merge2_tail_def)
  next
    case True
    let ?b = "take (offset (world g)) (buffer (world g))"
    let ?u1 = "(world g)\<lparr>cons := cons (world g) @ [?b], trace := trace (world g) @ [Yield ?b True]\<rparr>"
    have "fits B ?u1" using assms by (simp add: fits_def)
    from both [OF this] have "grows B (world g) (flush collect 1 (next1 g) (values1 g) (ok1 g)
                           (flush collect 0 (next0 g) (values0 g) (ok0 g) ?u1))"
      by (auto simp: grows_def)
    with True assms show ?thesis
      by (simp add: merge2_tail_def emit_collect slice_to_def fits_def)
  qed
qed


section \<open>Any consumer against the one that takes everything\<close>

lemma severed_grows: "severed y c0 w u \<Longrightarrow> grows B u u' \<Longrightarrow> severed y c0 w u'"
  by (auto simp: severed_def grows_def feed_append)

lemma sim_fits: "sim y c0 w u \<Longrightarrow> fits B w = fits B u"
  by (simp add: sim_def fits_def)

lemma emit_sim:
  assumes "sim y c0 w u" and "emit y b w = (r, w')"
  shows "if r then sim y c0 w' (u\<lparr>cons := cons u @ [b], trace := trace u @ [Yield b True]\<rparr>)
         else severed y c0 w' (u\<lparr>cons := cons u @ [b], trace := trace u @ [Yield b True]\<rparr>)"
  using assms
  by (auto simp: sim_def severed_def emit_def logged_def feed_append halted_def split: prod.splits)

lemma make_room_sim:
  assumes "sim y c0 w u" and "fits B u" and "2 \<le> B" and "make_room collect u = Next u'"
  shows "case make_room y w of
           Next w' \<Rightarrow> sim y c0 w' u'
         | Return w' \<Rightarrow> severed y c0 w' u'
         | Panic e \<Rightarrow> False"
proof (cases "offset u + 1 \<ge> length (buffer u)")
  case False
  with assms show ?thesis by (auto simp: make_room_def sim_def)
next
  case True
  obtain r w1 where e: "emit y (take (offset u) (buffer u)) w = (r, w1)"
    by (metis prod.exhaust)
  from emit_sim [OF assms(1) e] emit_buffer [OF e] e True assms show ?thesis
    by (auto simp: make_room_def slice_to_def emit_collect fits_def sim_def severed_def
             split: if_splits)
qed

lemma merge2_step_sim:
  assumes "sim y c0 w u" and "fits B u" and "2 \<le> B"
    and "merge2_step cmp collect vs0 vs1 i0 i1 u = Next (j0, j1, u')"
  shows "case merge2_step cmp y vs0 vs1 i0 i1 w of
           Next (k0, k1, w') \<Rightarrow> k0 = j0 \<and> k1 = j1 \<and> sim y c0 w' u'
         | Return w' \<Rightarrow> severed y c0 w' u'
         | Panic e \<Rightarrow> False"
proof -
  from merge2_step_advances [OF assms(4)] have b: "i0 < length vs0" "i1 < length vs1"
    by auto
  from make_room_collect [OF assms(2,3)] obtain u1 where
    u1: "make_room collect u = Next u1" "grows B u u1" "offset u1 + 1 < B"
    by blast
  have g: "grows B u1 u'" 
    using assms(4) u1 b
    by (auto simp: merge2_step_def index_def assign_def logged_def Let_def grows_def fits_def
             split: if_splits)
  show ?thesis
  proof (cases "make_room y w")
    case (Panic e)
    with make_room_sim [OF assms(1,2,3) u1(1)] show ?thesis by simp
  next
    case (Return w')
    with make_room_sim [OF assms(1,2,3) u1(1)] have "severed y c0 w' u1" by simp
    from severed_grows [OF this g] Return b show ?thesis
      by (simp add: merge2_step_def index_def)
  next
    case (Next w1)
    with make_room_sim [OF assms(1,2,3) u1(1)] have s: "sim y c0 w1 u1" by simp
    with u1 have "offset w1 + 1 < length (buffer w1)"
      by (simp add: sim_def grows_def fits_def)
    with s assms(4) u1 Next b show ?thesis
      by (auto simp: merge2_step_def index_def assign_def logged_def Let_def sim_def
               split: if_splits)
  qed
qed

lemma merge2_inner_sim:
  assumes "2 \<le> B"
  shows "fits B u \<Longrightarrow> sim y c0 w u \<Longrightarrow>
     merge2_inner cmp collect vs0 vs1 i0 i1 u = Next (j0, j1, u') \<Longrightarrow>
     (case merge2_inner cmp y vs0 vs1 i0 i1 w of
        Next (k0, k1, w') \<Rightarrow> k0 = j0 \<and> k1 = j1 \<and> sim y c0 w' u'
      | Return w' \<Rightarrow> severed y c0 w' u'
      | Panic e \<Rightarrow> False)"
proof (induction i0 i1 u arbitrary: w rule: merge2_inner_cases [where cmp = cmp and yield = collect and ?vs0.0 = vs0 and ?vs1.0 = vs1])
  case (finished i0 i1 u)
  then show ?case by (simp add: merge2_inner_done)
next
  case (iterate i0 i1 u)
  from merge2_step_collect [OF iterate.prems(1) assms iterate.hyps, of cmp] obtain m0 m1 u1 where
    s: "merge2_step cmp collect vs0 vs1 i0 i1 u = Next (m0, m1, u1)" "grows B u u1"
    by blast
  then have f1: "fits B u1" by (simp add: grows_def)
  from s(1) iterate.prems(3) have r: "merge2_inner cmp collect vs0 vs1 m0 m1 u1 = Next (j0, j1, u')"
    by (simp add: merge2_inner_more [OF iterate.hyps])
  from merge2_inner_collect [OF assms f1, of cmp vs0 vs1 m0 m1] r have g: "grows B u1 u'"
    by simp
  show ?case
  proof (cases "merge2_step cmp y vs0 vs1 i0 i1 w")
    case (Panic e)
    with merge2_step_sim [OF iterate.prems(2,1) assms s(1)] show ?thesis by simp
  next
    case (Return w')
    with merge2_step_sim [OF iterate.prems(2,1) assms s(1)] have "severed y c0 w' u1" by simp
    from severed_grows [OF this g] Return show ?thesis
      by (simp add: merge2_inner_more [OF iterate.hyps])
  next
    case (Next x)
    obtain k0 k1 w1 where x: "x = (k0, k1, w1)" by (metis prod.exhaust)
    with Next merge2_step_sim [OF iterate.prems(2,1) assms s(1)]
    have k: "k0 = m0" "k1 = m1" "sim y c0 w1 u1" by simp_all
    from iterate.IH [OF s(1) f1 k(3) r] Next x k(1,2) show ?thesis
      by (simp add: merge2_inner_more [OF iterate.hyps])
  qed
qed

lemma pull_sim:
  assumes "sim y c0 w u" and "pull k src u = ((vs, ok), src', u')"
  shows "\<exists>w'. pull k src w = ((vs, ok), src', w') \<and> sim y c0 w' u'"
  using assms by (auto simp: pull_def logged_def sim_def split: list.splits)

lemma refill0_sim:
  assumes "simf y c0 f g"
  shows "simf y c0 (refill0 i f) (refill0 i g)"
proof (cases "i = length (values0 g)")
  case False
  with assms show ?thesis by (simp add: refill0_def simf_def)
next
  case True
  obtain vs ok src' u' where p: "pull 0 (next0 g) (world g) = ((vs, ok), src', u')"
    by (metis prod.exhaust)
  from assms have "sim y c0 (world f) (world g)" by (simp add: simf_def)
  from pull_sim [OF this p] obtain w' where
    "pull 0 (next0 g) (world f) = ((vs, ok), src', w')" "sim y c0 w' u'"
    by blast
  with assms p True show ?thesis by (simp add: refill0_def simf_def)
qed

lemma refill1_sim:
  assumes "simf y c0 f g"
  shows "simf y c0 (refill1 i f) (refill1 i g)"
proof (cases "i = length (values1 g)")
  case False
  with assms show ?thesis by (simp add: refill1_def simf_def)
next
  case True
  obtain vs ok src' u' where p: "pull 1 (next1 g) (world g) = ((vs, ok), src', u')"
    by (metis prod.exhaust)
  from assms have "sim y c0 (world f) (world g)" by (simp add: simf_def)
  from pull_sim [OF this p] obtain w' where
    "pull 1 (next1 g) (world f) = ((vs, ok), src', w')" "sim y c0 w' u'"
    by blast
  with assms p True show ?thesis by (simp del: One_nat_def add: refill1_def simf_def)
qed

lemma refill0_cons [simp]: "cons (world (refill0 i g)) = cons (world g)"
  by (auto simp: refill0_def split: prod.splits dest!: pull_world)

lemma refill1_cons [simp]: "cons (world (refill1 i g)) = cons (world g)"
  by (auto simp: refill1_def split: prod.splits dest!: pull_world)

lemma severed_cons: "severed y c0 w u \<Longrightarrow> cons u' = cons u \<Longrightarrow> severed y c0 w u'"
  by (simp add: severed_def)

lemma merge2_round_sim:
  assumes "simf y c0 f g" and "fits B (world g)" and "2 \<le> B"
    and "merge2_round cmp collect g = Next g'"
  shows "case merge2_round cmp y f of
           Next f' \<Rightarrow> simf y c0 f' g'
         | Return w' \<Rightarrow> severed y c0 w' (world g')
         | Panic e \<Rightarrow> False"
proof -
  from merge2_inner_collect [OF assms(3,2), of cmp "values0 g" "values1 g" 0 0]
  obtain j0 j1 u' where
    i: "merge2_inner cmp collect (values0 g) (values1 g) 0 0 (world g) = Next (j0, j1, u')"
    by blast
  with assms(4) have g': "g' = refill1 j1 (refill0 j0 (g\<lparr>world := u'\<rparr>))"
    by (simp add: merge2_round_def)
  from assms(1) have v: "values0 f = values0 g" "values1 f = values1 g"
    and s: "sim y c0 (world f) (world g)"
    by (simp_all add: simf_def)
  show ?thesis
  proof (cases "merge2_inner cmp y (values0 g) (values1 g) 0 0 (world f)")
    case (Panic e)
    with merge2_inner_sim [OF assms(3,2) s i] show ?thesis by simp
  next
    case (Return w')
    with merge2_inner_sim [OF assms(3,2) s i] have "severed y c0 w' u'" by simp
    then have "severed y c0 w' (world g')"
      by (rule severed_cons) (simp add: g')
    with Return v show ?thesis by (simp add: merge2_round_def)
  next
    case (Next x)
    obtain k0 k1 w1 where x: "x = (k0, k1, w1)" by (metis prod.exhaust)
    with Next merge2_inner_sim [OF assms(3,2) s i]
    have k: "k0 = j0" "k1 = j1" "sim y c0 w1 u'" by simp_all
    from assms(1) k(3) have "simf y c0 (f\<lparr>world := w1\<rparr>) (g\<lparr>world := u'\<rparr>)"
      by (simp add: simf_def)
    then have "simf y c0 (refill1 j1 (refill0 j0 (f\<lparr>world := w1\<rparr>))) g'"
      unfolding g' by (intro refill1_sim refill0_sim)
    with Next x k(1,2) v show ?thesis by (simp add: merge2_round_def)
  qed
qed

lemma merge2_loop_sim:
  assumes "2 \<le> B"
  shows "fits B (world g) \<Longrightarrow> simf y c0 f g \<Longrightarrow> merge2_loop cmp collect g = Next g' \<Longrightarrow>
     (case merge2_loop cmp y f of
        Next f' \<Rightarrow> simf y c0 f' g'
      | Return w' \<Rightarrow> severed y c0 w' (world g')
      | Panic e \<Rightarrow> False)"
proof (induction g arbitrary: f rule: merge2_loop_cases [where cmp = cmp and yield = collect])
  case (finished g)
  then have "\<not> (ok0 f \<and> ok1 f)" by (simp add: simf_def)
  with finished show ?case by (simp add: merge2_loop_done)
next
  case (iterate g)
  from iterate.hyps iterate.prems(2) have ok: "ok0 f" "ok1 f" by (simp_all add: simf_def)
  from merge2_round_collect [OF iterate.prems(1) assms, of cmp] obtain g1 where
    s: "merge2_round cmp collect g = Next g1" "grows B (world g) (world g1)"
    by blast
  then have f1: "fits B (world g1)" by (simp add: grows_def)
  from s(1) iterate.prems(3) have r: "merge2_loop cmp collect g1 = Next g'"
    by (simp add: merge2_loop_more [OF iterate.hyps])
  from merge2_loop_collect [OF assms f1, of cmp] r have g: "grows B (world g1) (world g')"
    by simp
  show ?case
  proof (cases "merge2_round cmp y f")
    case (Panic e)
    with merge2_round_sim [OF iterate.prems(2,1) assms s(1)] show ?thesis by simp
  next
    case (Return w')
    with merge2_round_sim [OF iterate.prems(2,1) assms s(1)] have "severed y c0 w' (world g1)"
      by simp
    from severed_grows [OF this g] Return show ?thesis
      by (simp add: merge2_loop_more [OF ok])
  next
    case (Next f1)
    with merge2_round_sim [OF iterate.prems(2,1) assms s(1)] have "simf y c0 f1 g1" by simp
    from iterate.IH [OF s(1) \<open>fits B (world g1)\<close> this r] Next show ?thesis
      by (simp add: merge2_loop_more [OF ok])
  qed
qed

lemma flush_sim:
  "sim y c0 w u \<Longrightarrow> fits B u \<Longrightarrow>
     sim y c0 (flush y k src vs ok w) (flush collect k src vs ok u)
     \<or> severed y c0 (flush y k src vs ok w) (flush collect k src vs ok u)"
proof (induction src vs ok w arbitrary: u rule: flush_cases [where yield = y and k = k])
  case (finished src vs w)
  then show ?case by (simp add: flush_done)
next
  case (iterate src vs w)
  let ?u1 = "u\<lparr>cons := cons u @ [vs], trace := trace u @ [Yield vs True]\<rparr>"
  obtain vs' ok' src' u2 where p: "pull k src ?u1 = ((vs', ok'), src', u2)"
    by (metis prod.exhaust)
  from pull_world [OF p] iterate.prems(2) have f2: "fits B u2" and c2: "cons u2 = cons ?u1"
    by (auto simp: fits_def)
  have fu: "flush collect k src vs True u = flush collect k src' vs' ok' u2"
    by (simp add: flush_more emit_collect p)
  obtain r w1 where e: "emit y vs w = (r, w1)" by (metis prod.exhaust)
  show ?case
  proof (cases r)
    case False
    with emit_sim [OF iterate.prems(1) e] have "severed y c0 w1 ?u1" by simp
    then have "severed y c0 w1 u2" by (rule severed_cons) (simp add: c2)
    from severed_grows [OF this flush_collect [OF f2]] e False fu show ?thesis
      by (simp add: flush_more)
  next
    case True
    with emit_sim [OF iterate.prems(1) e] have s1: "sim y c0 w1 ?u1" by simp
    from pull_sim [OF s1 p] obtain w2 where
      pw: "pull k src w1 = ((vs', ok'), src', w2)" and s2: "sim y c0 w2 u2"
      by blast
    from e True have e': "emit y vs w = (True, w1)" by simp
    from iterate.IH [OF e' pw s2 f2] e' pw fu show ?thesis
      by (simp add: flush_more)
  qed
qed

lemma merge2_tail_sim:
  assumes "simf y c0 f g" and "fits B (world g)" and "\<not> (ok0 g \<and> ok1 g)"
  shows "\<exists>w' u'. merge2_tail y f = Inr w' \<and> merge2_tail collect g = Inr u'
           \<and> (sim y c0 w' u' \<or> severed y c0 w' u')"
proof -
  from assms(1) have eq: "next0 f = next0 g" "next1 f = next1 g" "values0 f = values0 g"
    "ok0 f = ok0 g" "values1 f = values1 g" "ok1 f = ok1 g"
    and s: "sim y c0 (world f) (world g)"
    by (simp_all add: simf_def)
  have both: "\<exists>w' u'. w' = flush y 1 (next1 g) (values1 g) (ok1 g)
                            (flush y 0 (next0 g) (values0 g) (ok0 g) w)
           \<and> u' = flush collect 1 (next1 g) (values1 g) (ok1 g)
                            (flush collect 0 (next0 g) (values0 g) (ok0 g) u)
           \<and> (sim y c0 w' u' \<or> severed y c0 w' u')"
    if "sim y c0 w u" and "fits B u" for w u
  proof (cases "ok0 g")
    case True
    with assms(3) have "\<not> ok1 g" by simp
    with flush_sim [OF that, of 0 "next0 g" "values0 g" "ok0 g"] show ?thesis
      by (simp add: flush_done)
  next
    case False
    with flush_sim [OF that, of 1 "next1 g" "values1 g" "ok1 g"] show ?thesis
      by (simp add: flush_done)
  qed
  show ?thesis
  proof (cases "offset (world g) > 0")
    case False
    with both [OF s assms(2)] s eq show ?thesis
      by (simp add: merge2_tail_def sim_def)
  next
    case True
    let ?b = "take (offset (world g)) (buffer (world g))"
    let ?u1 = "(world g)\<lparr>cons := cons (world g) @ [?b], trace := trace (world g) @ [Yield ?b True]\<rparr>"
    have f1: "fits B ?u1" using assms(2) by (simp add: fits_def)
    obtain r w1 where e: "emit y ?b (world f) = (r, w1)" by (metis prod.exhaust)
    from s have o: "offset (world f) = offset (world g)" "buffer (world f) = buffer (world g)"
      by (simp_all add: sim_def)
    from assms(2) have sl: "slice_to (buffer (world g)) (offset (world g)) = Inr ?b"
      by (simp add: slice_to_def fits_def)
    show ?thesis
    proof (cases r)
      case False
      with emit_sim [OF s e] have c: "severed y c0 w1 ?u1" by simp
      let ?u' = "flush collect 1 (next1 g) (values1 g) (ok1 g)
                   (flush collect 0 (next0 g) (values0 g) (ok0 g) ?u1)"
      have g0: "grows B ?u1 (flush collect 0 (next0 g) (values0 g) (ok0 g) ?u1)"
        using f1 by (rule flush_collect)
      then have "fits B (flush collect 0 (next0 g) (values0 g) (ok0 g) ?u1)"
        by (simp add: grows_def)
      then have "grows B (flush collect 0 (next0 g) (values0 g) (ok0 g) ?u1) ?u'"
        by (rule flush_collect)
      with g0 have "grows B ?u1 ?u'" by (rule grows_trans)
      from severed_grows [OF c this] True False e o sl eq show ?thesis
        by (simp add: merge2_tail_def emit_collect)
    next
      case r: True
      with emit_sim [OF s e] have "sim y c0 w1 ?u1" by simp
      from both [OF this f1] True r e o sl eq show ?thesis
        by (simp add: merge2_tail_def emit_collect)
    qed
  qed
qed

lemma merge2_body_sim:
  assumes "2 \<le> B"
  shows "\<exists>w u. merge2_body B z cmp seq0 seq1 y c0 = Inr w
           \<and> merge2_body B z cmp seq0 seq1 collect [] = Inr u
           \<and> (sim y c0 w u \<or> severed y c0 w u)"
proof -
  let ?u0 = "\<lparr>buffer = [], offset = 0, cons = [], trace = []\<rparr> :: ('a, 'a list list) out"
  let ?w0 = "\<lparr>buffer = [], offset = 0, cons = c0, trace = []\<rparr>"
  have s0: "sim y c0 ?w0 ?u0" by (simp add: sim_def)
  obtain vs0 k0 src0 u1 where p0: "pull 0 seq0 ?u0 = ((vs0, k0), src0, u1)"
    by (metis prod.exhaust)
  from pull_sim [OF s0 p0] obtain w1 where
    q0: "pull 0 seq0 ?w0 = ((vs0, k0), src0, w1)" and s1: "sim y c0 w1 u1"
    by blast
  obtain vs1 k1 src1 u2 where p1: "pull 1 seq1 u1 = ((vs1, k1), src1, u2)"
    by (metis prod.exhaust)
  from pull_sim [OF s1 p1] obtain w2 where
    q1: "pull 1 seq1 w1 = ((vs1, k1), src1, w2)" and s2: "sim y c0 w2 u2"
    by blast
  let ?g = "\<lparr>next0 = src0, next1 = src1, values0 = vs0, ok0 = k0, values1 = vs1, ok1 = k1,
             world = u2\<lparr>buffer := replicate B z, offset := 0\<rparr>\<rparr>"
  let ?f = "\<lparr>next0 = src0, next1 = src1, values0 = vs0, ok0 = k0, values1 = vs1, ok1 = k1,
             world = w2\<lparr>buffer := replicate B z, offset := 0\<rparr>\<rparr>"
  have fg: "fits B (world ?g)" by (simp add: fits_def)
  from s2 have sf: "simf y c0 ?f ?g" by (auto simp: simf_def sim_def)
  from merge2_loop_collect [OF assms fg, of cmp] obtain g' where
    l: "merge2_loop cmp collect ?g = Next g'" "grows B (world ?g) (world g')"
       "\<not> (ok0 g' \<and> ok1 g')"
    by blast
  then have fg': "fits B (world g')" by (simp add: grows_def)
  from merge2_tail_collect [OF fg'] obtain u' where
    t: "merge2_tail collect g' = Inr u'" "grows B (world g') u'"
    by blast
  have bc: "merge2_body B z cmp seq0 seq1 collect [] = Inr u'"
    using p0 p1 l(1) t(1) by (simp del: One_nat_def add: merge2_body_def)
  show ?thesis
  proof (cases "merge2_loop cmp y ?f")
    case (Panic e)
    with merge2_loop_sim [OF assms fg sf l(1)] show ?thesis by simp
  next
    case (Return w')
    with merge2_loop_sim [OF assms fg sf l(1)] have "severed y c0 w' (world g')" by simp
    from severed_grows [OF this t(2)] have "severed y c0 w' u'" .
    moreover have "merge2_body B z cmp seq0 seq1 y c0 = Inr w'"
      using q0 q1 Return by (simp del: One_nat_def add: merge2_body_def)
    ultimately show ?thesis using bc by blast
  next
    case (Next f')
    with merge2_loop_sim [OF assms fg sf l(1)] have "simf y c0 f' g'" by simp
    from merge2_tail_sim [OF this fg' l(3)] t(1) obtain w' where
      "merge2_tail y f' = Inr w'" "sim y c0 w' u' \<or> severed y c0 w' u'"
      by auto
    moreover have "merge2_body B z cmp seq0 seq1 y c0 = merge2_tail y f'"
      using q0 q1 Next by (simp del: One_nat_def add: merge2_body_def)
    ultimately show ?thesis using bc by auto
  qed
qed


section \<open>Early termination\<close>




lemma debuffer_yield_collect: "debuffer_yield collect c b = (True, c @ b)"
  by (induction b arbitrary: c) (simp_all add: collect_def)

lemma feed_debuffer_collect: "feed (debuffer_yield collect) c bs = (True, c @ concat bs)"
  by (induction bs arbitrary: c) (simp_all add: debuffer_yield_collect)






subsection \<open>The k-way engine and the entry point\<close>





lemma range_over_collect: "range_over collect xs c = c @ xs"
  by (induction xs arbitrary: c) (simp_all add: collect_def)





section \<open>The capacity of the buffer\<close>

lemma make_room_flat:
  assumes "fits B u" and "2 \<le> B"
  shows "\<exists>u'. make_room collect u = Next u' \<and> fits B u' \<and> offset u' + 1 < B \<and> flat u' = flat u"
  using assms
  by (auto simp: make_room_def slice_to_def emit_collect fits_def flat_def)

lemma merge2_step_flat:
  assumes "fits B u" and "2 \<le> B" and "i0 < length vs0" and "i1 < length vs1"
    and "chosen cmp (vs0 ! i0) (vs1 ! i1) = (d0, d1, xs)"
  shows "\<exists>u'. merge2_step cmp collect vs0 vs1 i0 i1 u = Next (i0 + d0, i1 + d1, u')
           \<and> fits B u' \<and> flat u' = flat u @ xs"
proof -
  from make_room_flat [OF assms(1,2)] obtain u1 where
    u1: "make_room collect u = Next u1" "fits B u1" "offset u1 + 1 < B" "flat u1 = flat u"
    by blast
  then have l: "offset u1 < length (buffer u1)" "Suc (offset u1) < length (buffer u1)"
    by (simp_all add: fits_def)
  from take_store1 [OF l(1)] take_store2 [OF l(2)] u1 l assms(3,4,5) show ?thesis
    by (auto simp: merge2_step_def index_def assign_def logged_def Let_def chosen_def
                   fits_def flat_def split: if_splits)
qed

lemma merge2_inner_flat:
  assumes "2 \<le> B" and "2 \<le> B'"
  shows "fits B u \<Longrightarrow> fits B' u' \<Longrightarrow> flat u = flat u' \<Longrightarrow>
     \<exists>j0 j1 v v'. merge2_inner cmp collect vs0 vs1 i0 i1 u = Next (j0, j1, v)
        \<and> merge2_inner cmp collect vs0 vs1 i0 i1 u' = Next (j0, j1, v')
        \<and> fits B v \<and> fits B' v' \<and> flat v = flat v'"
proof (induction i0 i1 u arbitrary: u' rule: merge2_inner_cases [where cmp = cmp and yield = collect and ?vs0.0 = vs0 and ?vs1.0 = vs1])
  case (finished i0 i1 u)
  then show ?case by (simp add: merge2_inner_done)
next
  case (iterate i0 i1 u)
  obtain d0 d1 xs where c: "chosen cmp (vs0 ! i0) (vs1 ! i1) = (d0, d1, xs)"
    by (metis prod.exhaust)
  from merge2_step_flat [OF iterate.prems(1) assms(1) iterate.hyps c] obtain u1 where
    s: "merge2_step cmp collect vs0 vs1 i0 i1 u = Next (i0 + d0, i1 + d1, u1)"
       "fits B u1" "flat u1 = flat u @ xs"
    by blast
  from merge2_step_flat [OF iterate.prems(2) assms(2) iterate.hyps c] obtain u1' where
    s': "merge2_step cmp collect vs0 vs1 i0 i1 u' = Next (i0 + d0, i1 + d1, u1')"
       "fits B' u1'" "flat u1' = flat u' @ xs"
    by blast
  from s(3) s'(3) iterate.prems(3) have "flat u1 = flat u1'" by simp
  from iterate.IH [OF s(1) s(2) s'(2) this] s(1) s'(1) show ?case
    by (simp add: merge2_inner_more [OF iterate.hyps])
qed

lemma pull_flat:
  "pull k src u = ((vs, ok), src', u') \<Longrightarrow> flat u' = flat u \<and> fits B u' = fits B u"
  by (auto simp: flat_def fits_def dest!: pull_world)

lemma pull_result:
  "pull k src u = ((vs, ok), src', u') \<Longrightarrow> pull k src v = ((vs', ok'), src'', v') \<Longrightarrow>
     vs' = vs \<and> ok' = ok \<and> src'' = src'"
  by (auto simp: pull_def split: list.splits)

lemma refill0_alike:
  assumes "alike B B' g g'"
  shows "alike B B' (refill0 i g) (refill0 i g')"
proof (cases "i = length (values0 g)")
  case False
  with assms show ?thesis by (simp add: refill0_def alike_def)
next
  case True
  obtain vs ok src u where p: "pull 0 (next0 g) (world g) = ((vs, ok), src, u)"
    by (metis prod.exhaust)
  obtain vs' ok' src' u' where p': "pull 0 (next0 g) (world g') = ((vs', ok'), src', u')"
    by (metis prod.exhaust)
  from pull_result [OF p p'] pull_flat [OF p] pull_flat [OF p'] assms True p p'
  show ?thesis by (simp add: refill0_def alike_def)
qed

lemma refill1_alike:
  assumes "alike B B' g g'"
  shows "alike B B' (refill1 i g) (refill1 i g')"
proof (cases "i = length (values1 g)")
  case False
  with assms show ?thesis by (simp add: refill1_def alike_def)
next
  case True
  obtain vs ok src u where p: "pull 1 (next1 g) (world g) = ((vs, ok), src, u)"
    by (metis prod.exhaust)
  obtain vs' ok' src' u' where p': "pull 1 (next1 g) (world g') = ((vs', ok'), src', u')"
    by (metis prod.exhaust)
  from pull_result [OF p p'] pull_flat [OF p] pull_flat [OF p'] assms True p p'
  show ?thesis by (simp del: One_nat_def add: refill1_def alike_def)
qed

lemma merge2_round_flat:
  assumes "2 \<le> B" and "2 \<le> B'" and "alike B B' g g'"
  shows "\<exists>h h'. merge2_round cmp collect g = Next h \<and> merge2_round cmp collect g' = Next h'
           \<and> alike B B' h h'"
proof -
  from assms(3) have a: "fits B (world g)" "fits B' (world g')" "flat (world g) = flat (world g')"
    and v: "values0 g' = values0 g" "values1 g' = values1 g"
    by (simp_all add: alike_def)
  from merge2_inner_flat [OF assms(1,2) a, of cmp "values0 g" "values1 g" 0 0]
  obtain j0 j1 v v' where
    i: "merge2_inner cmp collect (values0 g) (values1 g) 0 0 (world g) = Next (j0, j1, v)"
       "merge2_inner cmp collect (values0 g) (values1 g) 0 0 (world g') = Next (j0, j1, v')"
       "fits B v" "fits B' v'" "flat v = flat v'"
    by blast
  from assms(3) i(3,4,5) have "alike B B' (g\<lparr>world := v\<rparr>) (g'\<lparr>world := v'\<rparr>)"
    by (simp add: alike_def)
  then have "alike B B' (refill1 j1 (refill0 j0 (g\<lparr>world := v\<rparr>)))
                        (refill1 j1 (refill0 j0 (g'\<lparr>world := v'\<rparr>)))"
    by (intro refill1_alike refill0_alike)
  with i(1,2) v show ?thesis by (simp add: merge2_round_def)
qed

lemma merge2_loop_flat:
  assumes "2 \<le> B" and "2 \<le> B'"
  shows "alike B B' g g' \<Longrightarrow>
     \<exists>h h'. merge2_loop cmp collect g = Next h \<and> merge2_loop cmp collect g' = Next h'
        \<and> alike B B' h h'"
proof (induction g arbitrary: g' rule: merge2_loop_cases [where cmp = cmp and yield = collect])
  case (finished g)
  then have "\<not> (ok0 g' \<and> ok1 g')" by (simp add: alike_def)
  with finished show ?case by (simp add: merge2_loop_done)
next
  case (iterate g)
  from iterate.hyps iterate.prems have ok: "ok0 g'" "ok1 g'" by (simp_all add: alike_def)
  from merge2_round_flat [OF assms iterate.prems, of cmp] obtain h h' where
    r: "merge2_round cmp collect g = Next h" "merge2_round cmp collect g' = Next h'"
       "alike B B' h h'"
    by blast
  from iterate.IH [OF r(1,3)] r(1,2) show ?case
    by (simp add: merge2_loop_more [OF iterate.hyps] merge2_loop_more [OF ok])
qed

lemma flush_collect_cons:
  "cons (flush collect k src vs ok u) = cons u @ (if ok then vs # src else [])"
proof (induction src vs ok u rule: flush_cases [where yield = collect and k = k])
  case (finished src vs u)
  then show ?case by (simp add: flush_done)
next
  case (iterate src vs u)
  let ?u1 = "u\<lparr>cons := cons u @ [vs], trace := trace u @ [Yield vs True]\<rparr>"
  obtain vs' ok' src' u2 where p: "pull k src ?u1 = ((vs', ok'), src', u2)"
    by (metis prod.exhaust)
  from pull_world [OF p] have c: "cons u2 = cons u @ [vs]" by simp
  from p have "(if ok' then vs' # src' else []) = src"
    by (auto simp: pull_def split: list.splits)
  with iterate.IH [OF emit_collect p] c p show ?case
    by (simp add: flush_more emit_collect)
qed

lemma merge2_tail_flat:
  assumes "fits B (world g)"
  shows "\<exists>u. merge2_tail collect g = Inr u
           \<and> concat (cons u) = flat (world g)
                @ concat ((if ok0 g then values0 g # next0 g else [])
                          @ (if ok1 g then values1 g # next1 g else []))"
  using assms
  by (simp add: merge2_tail_def slice_to_def emit_collect flush_collect_cons flat_def fits_def)

lemma merge2_body_flat:
  assumes "2 \<le> B" and "2 \<le> B'"
  shows "\<exists>u u'. merge2_body B z cmp seq0 seq1 collect [] = Inr u
           \<and> merge2_body B' z cmp seq0 seq1 collect [] = Inr u'
           \<and> concat (cons u) = concat (cons u')"
proof -
  let ?u0 = "\<lparr>buffer = [], offset = 0, cons = [], trace = []\<rparr> :: ('a, 'a list list) out"
  obtain vs0 k0 src0 u1 where p0: "pull 0 seq0 ?u0 = ((vs0, k0), src0, u1)"
    by (metis prod.exhaust)
  obtain vs1 k1 src1 u2 where p1: "pull 1 seq1 u1 = ((vs1, k1), src1, u2)"
    by (metis prod.exhaust)
  from pull_world [OF p0] pull_world [OF p1] have c2: "cons u2 = []" by simp
  let ?g = "\<lambda>B. \<lparr>next0 = src0, next1 = src1, values0 = vs0, ok0 = k0, values1 = vs1, ok1 = k1,
             world = u2\<lparr>buffer := replicate B z, offset := 0\<rparr>\<rparr>"
  have "alike B B' (?g B) (?g B')"
    by (simp add: alike_def fits_def flat_def c2)
  from merge2_loop_flat [OF assms this, of cmp] obtain h h' where
    l: "merge2_loop cmp collect (?g B) = Next h" "merge2_loop cmp collect (?g B') = Next h'"
       "alike B B' h h'"
    by blast
  from l(3) have f: "fits B (world h)" "fits B' (world h')" by (simp_all add: alike_def)
  from merge2_tail_flat [OF f(1)] merge2_tail_flat [OF f(2)] l(3) obtain u u' where
    "merge2_tail collect h = Inr u" "merge2_tail collect h' = Inr u'"
    "concat (cons u) = concat (cons u')"
    by (auto simp: alike_def)
  with p0 p1 l(1,2) show ?thesis
    by (simp del: One_nat_def add: merge2_body_def)
qed

lemma debuffer_merge2_collect:
  assumes "2 \<le> B"
  shows "\<exists>u. merge2_body B z cmp seq0 seq1 collect [] = Inr u
           \<and> received (debuffer (merge2_with B z cmp seq0 seq1) collect []) = Inr (concat (cons u))"
proof -
  from merge2_body_sim [OF assms, of z cmp seq0 seq1 "debuffer_yield collect" "[]"]
  obtain wc u where
    c: "merge2_body B z cmp seq0 seq1 (debuffer_yield collect) [] = Inr wc"
       "merge2_body B z cmp seq0 seq1 collect [] = Inr u"
       "sim (debuffer_yield collect) [] wc u \<or> severed (debuffer_yield collect) [] wc u"
    by blast
  from c(3) have "cons wc = concat (cons u)"
    by (auto simp: sim_def severed_def feed_debuffer_collect)
  with c(1,2) show ?thesis
    by (simp add: debuffer_def merge2_with_def received_def)
qed


text \<open>
  With the batches of the two sources given, the length \<open>B \<ge> 2\<close> of the buffer only
  changes how the output is cut into batches, not the values.
\<close>

lemma buffer_length_immaterial:
  assumes "2 \<le> B" and "2 \<le> B'"
  shows "\<exists>out. received (debuffer (merge2_with B z cmp seq0 seq1) collect []) = Inr out
           \<and> received (debuffer (merge2_with B' z cmp seq0 seq1) collect []) = Inr out"
  using merge2_body_flat [OF assms, of z cmp seq0 seq1]
        debuffer_merge2_collect [OF assms(1), of z cmp seq0 seq1]
        debuffer_merge2_collect [OF assms(2), of z cmp seq0 seq1]
  by auto

text \<open>
  A buffer of length 1 has no room for the two writes of the equal branch (lines
  112-113): with \<^verbatim>\<open>bufferSize\<close> set to 1 the inputs \<open>[1]\<close> and \<open>[1]\<close> end in a panic.
\<close>

lemma capacity_one_panics:
  "MergeFunc_with 1 (0::int) (\<lambda>cmp seqs. []) Compare [[1], [1]] collect [] = Inl IndexOutOfRange"
  by code_simp

lemma MergeFunc_with_bufferSize: "MergeFunc_with bufferSize z tree cmp seqs = MergeFunc z tree cmp seqs"
  by (simp add: MergeFunc_with_def MergeFunc_def merge2_def merge_def split: list.splits)

text \<open>
  C5: the values produced should not depend on the batch capacity. On the sorted inputs
  \<open>[1, 3, 5, 7, 9, 11, 13, 15]\<close> and \<open>[2, 100]\<close> the code yields 12 values with
  \<^verbatim>\<open>bufferSize\<close> set to 7 and 11 values with \<^verbatim>\<open>bufferSize\<close> at 128: with 7 the value
  2 comes three times. The same two outputs come from the code as it is when the caller
  hands \<^verbatim>\<open>MergeSliceFunc\<close> these inputs cut into batches of 7 and of 128.
\<close>

theorem batch_capacity_changes_output:
  "received (MergeFunc_with 7 (0::int) (\<lambda>cmp seqs. []) Compare
               [[1, 3, 5, 7, 9, 11, 13, 15], [2, 100]] collect [])
     = Inr [1, 2, 3, 5, 7, 9, 11, 13, 2, 15, 2, 100]
   \<and> received (MergeFunc_with 128 (0::int) (\<lambda>cmp seqs. []) Compare
               [[1, 3, 5, 7, 9, 11, 13, 15], [2, 100]] collect [])
     = Inr [1, 2, 3, 5, 7, 9, 11, 13, 15, 2, 100]
   \<and> received (debuffer (MergeSliceFunc (0::int) (\<lambda>cmp seqs. []) Compare
               [[[1, 3, 5, 7, 9, 11, 13], [15]], [[2, 100]]]) collect [])
     = Inr [1, 2, 3, 5, 7, 9, 11, 13, 2, 15, 2, 100]
   \<and> received (debuffer (MergeSliceFunc (0::int) (\<lambda>cmp seqs. []) Compare
               [[[1, 3, 5, 7, 9, 11, 13, 15]], [[2, 100]]]) collect [])
     = Inr [1, 2, 3, 5, 7, 9, 11, 13, 15, 2, 100]
   \<and> bufferedFunc 7 [1, 3, 5, 7, 9, 11, 13, 15 :: int] = [[1, 3, 5, 7, 9, 11, 13], [15]]
   \<and> bufferedFunc 128 [1, 3, 5, 7, 9, 11, 13, 15 :: int] = [[1, 3, 5, 7, 9, 11, 13, 15]]
   \<and> sorted [1, 3, 5, 7, 9, 11, 13, 15 :: int] \<and> sorted [2, 100 :: int]"
  by code_simp

section \<open>Degenerate inputs\<close>

theorem degenerate_inputs:
  "MergeFunc z tree cmp [] yield c = Inr (c, [])
   \<and> MergeSliceFunc z tree cmp [] yield' c = Inr (c, [])
   \<and> MergeFunc z tree cmp [s] = given s
   \<and> MergeSliceFunc z tree cmp [q] = given q
   \<and> received (MergeFunc z tree cmp [s] collect []) = Inr s
   \<and> received (MergeSliceFunc z tree cmp [q] collect []) = Inr q"
  by (simp add: MergeFunc_def MergeSliceFunc_def empty_seq_def given_def received_def
                range_over_collect)

section \<open>The merged output on concrete inputs\<close>

text \<open>
  C1: the output of \<^verbatim>\<open>Merge\<close> should be sorted and hold every input element exactly
  once. On the sorted inputs \<open>[1, 3]\<close> and \<open>[2]\<close> the code yields \<open>[1, 2, 1, 3]\<close>: the
  value 1 comes twice and the output is not sorted. The first conjunct is the same run
  on the batches themselves.
\<close>

theorem Merge_repeats_batch:
  "received (MergeSlice (0::int) (\<lambda>cmp seqs. []) [[[1, 3]], [[2]]] collect []) = Inr [[1, 2], [1, 3]]
   \<and> received (Merge (0::int) (\<lambda>cmp seqs. []) [[1, 3], [2]] collect []) = Inr [1, 2, 1, 3]
   \<and> \<not> sorted [1, 2, 1, 3 :: int]"
  by code_simp

text \<open>
  C2: the number of values yielded should be the sum of the input lengths. On the
  sorted inputs \<open>[1, 2]\<close> and \<open>[1]\<close>, of 3 elements together, the code yields the 4
  values \<open>[1, 1, 1, 2]\<close>.
\<close>

theorem MergeFunc_yields_too_many:
  "received (MergeSliceFunc (0::int) (\<lambda>cmp seqs. []) Compare [[[1, 2]], [[1]]] collect [])
     = Inr [[1, 1], [1, 2]]
   \<and> received (MergeFunc (0::int) (\<lambda>cmp seqs. []) Compare [[1, 2], [1]] collect []) = Inr [1, 1, 1, 2]
   \<and> length [1, 1, 1, 2 :: int] \<noteq> length [1, 2 :: int] + length [1 :: int]"
  by code_simp

text \<open>
  C3: merging \<open>[1, 3, 5]\<close> and \<open>[2, 3, 4]\<close> should give \<open>[1, 2, 3, 3, 4, 5]\<close>. The code
  yields \<open>[1, 2, 3, 3, 4, 1, 3, 5]\<close>.
\<close>

theorem MergeFunc_literal_example:
  "received (MergeSliceFunc (0::int) (\<lambda>cmp seqs. []) Compare [[[1, 3, 5]], [[2, 3, 4]]] collect [])
     = Inr [[1, 2, 3, 3, 4], [1, 3, 5]]
   \<and> received (MergeFunc (0::int) (\<lambda>cmp seqs. []) Compare [[1, 3, 5], [2, 3, 4]] collect [])
     = Inr [1, 2, 3, 3, 4, 1, 3, 5]"
  by code_simp

text \<open>
  C4: once a source has ended, exactly the values of the other source that were not
  emitted yet should follow. With the batches \<open>[1, 3]\<close> and \<open>[2]\<close>, source 1 ends
  (\<open>Pull 1 False\<close>) after 1 and 2 were emitted; the code then hands over the whole
  batch \<open>[1, 3]\<close> of source 0, not its remainder \<open>[3]\<close>.
\<close>

theorem merge2_flushes_whole_batch:
  "merge2 (0::int) Compare [[1, 3]] [[2]] collect [] =
     Inr ([[1, 2], [1, 3]],
          [Pull 0 True, Pull 1 True, Cmp 1 2, Cmp 3 2, Pull 1 False,
           Yield [1, 2] True, Yield [1, 3] True, Pull 0 False, Stop 1, Stop 0])"
  by code_simp

text \<open>
  The same loss of the cursor makes the output depend on how the inputs are cut into
  batches: \<open>[1, 3, 5]\<close> and \<open>[2, 6]\<close> in batches of at most 2 and in one batch each.
\<close>

lemma merge2_depends_on_batches:
  "received (debuffer (merge2 (0::int) Compare [[1, 3], [5]] [[2, 6]]) collect [])
     = Inr [1, 2, 3, 2, 5, 2, 6]
   \<and> received (debuffer (merge2 (0::int) Compare [[1, 3, 5]] [[2, 6]]) collect [])
     = Inr [1, 2, 3, 5, 2, 6]"
  by code_simp

end
